theory Spec2Isabelle
  imports Complex_Main "HOL-Library.Word"
begin

section \<open>Data model of the cache (internal/cache/cache.go)\<close>

text \<open>
  Go's \<^verbatim>\<open>int64\<close> is a 64-bit word: addition and subtraction wrap around, and the
  comparisons of the source are signed, so they are written on \<open>sint\<close>.
  A \<^verbatim>\<open>time.Time\<close> is an instant on a linear time axis, counted in nanoseconds;
  \<^verbatim>\<open>u.After(t)\<close> is the strict comparison \<open>t < u\<close>.
  A \<^verbatim>\<open>time.Duration\<close> is an \<^verbatim>\<open>int64\<close> count of nanoseconds.
  An \<^verbatim>\<open>http.Header\<close> is a map from header names to the list of their values.
\<close>

type_synonym int64 = "64 word"
type_synonym time = int
type_synonym Header = "string \<rightharpoonup> string list"

record Entry =
  StatusCode :: int
  Headers :: Header
  Body :: "8 word list"
  ETag :: string
  ExpiresAt :: time
  CreatedAt :: time
  Size :: int64

record cacheItem =
  key :: string
  entry :: Entry

text \<open>
  \<^verbatim>\<open>memoryCache\<close>: the field \<^verbatim>\<open>size\<close> is named \<open>size_c\<close> here (\<open>size\<close> is a
  constant of HOL). The mutex is left out: every method holds it from its first to its
  last statement, so each method is one atomic step on the state. The list
  \<^verbatim>\<open>lru\<close> has its front at the head. An element of the list is identified with the
  \<^verbatim>\<open>cacheItem\<close> it carries: \<^verbatim>\<open>items\<close> maps a key to the item of its element, and
  the elements of a cache have pairwise different keys (\<open>cache_wf\<close> below, an invariant
  of every method).
\<close>

record memoryCache =
  maxSize :: int64
  size_c :: int64
  items :: "string \<rightharpoonup> cacheItem"
  lru :: "cacheItem list"
  defaultTTL :: int64

definition NewMemoryCache :: "int64 \<Rightarrow> int64 \<Rightarrow> memoryCache" where
  "NewMemoryCache maxSize' defaultTTL' =
     \<lparr>maxSize = maxSize', size_c = 0, items = Map.empty, lru = [], defaultTTL = defaultTTL'\<rparr>"

subsection \<open>container/list operations used by the cache\<close>

definition MoveToFront :: "cacheItem list \<Rightarrow> cacheItem \<Rightarrow> cacheItem list" where
  "MoveToFront l e = (if e \<in> set l then e # remove1 e l else l)"

definition PushFront :: "cacheItem list \<Rightarrow> cacheItem \<Rightarrow> cacheItem list" where
  "PushFront l e = e # l"

definition Remove :: "cacheItem list \<Rightarrow> cacheItem \<Rightarrow> cacheItem list" where
  "Remove l e = remove1 e l"

definition Back :: "cacheItem list \<Rightarrow> cacheItem option" where
  "Back l = (if l = [] then None else Some (last l))"

subsection \<open>The methods of memoryCache\<close>

definition deleteElement :: "memoryCache \<Rightarrow> cacheItem \<Rightarrow> memoryCache" where
  "deleteElement c item =
     c\<lparr>items := (items c)(key item := None),
       lru := Remove (lru c) item,
       size_c := size_c c - Size (entry item)\<rparr>"

definition memoryCache_Get :: "memoryCache \<Rightarrow> time \<Rightarrow> string \<Rightarrow> memoryCache \<times> Entry option" where
  "memoryCache_Get c now k =
     (case items c k of
        None \<Rightarrow> (c, None)
      | Some item \<Rightarrow>
          if ExpiresAt (entry item) < now then (deleteElement c item, None)
          else (c\<lparr>lru := MoveToFront (lru c) item\<rparr>, Some (entry item)))"

text \<open>The first half of \<^verbatim>\<open>Set\<close>: replace the entry of an existing key, or add a new item.\<close>

definition set_item :: "memoryCache \<Rightarrow> string \<Rightarrow> Entry \<Rightarrow> memoryCache" where
  "set_item c k e =
     (case items c k of
        Some item \<Rightarrow>
          let item' = item\<lparr>entry := e\<rparr> in
          c\<lparr>size_c := size_c c - Size (entry item) + Size e,
            items := (items c)(k \<mapsto> item'),
            lru := item' # remove1 item (lru c)\<rparr>
      | None \<Rightarrow>
          let item = \<lparr>key = k, entry = e\<rparr> in
          c\<lparr>lru := PushFront (lru c) item,
            items := (items c)(k \<mapsto> item),
            size_c := size_c c + Size e\<rparr>)"

text \<open>
  The second half of \<^verbatim>\<open>Set\<close>, the loop
  \<^verbatim>\<open>for c.size > c.maxSize && c.lru.Len() > 0\<close>. In the loop \<^verbatim>\<open>Back()\<close> is never nil,
  the list being non-empty.
\<close>

function evict :: "memoryCache \<Rightarrow> memoryCache" where
  "evict c =
     (if sint (maxSize c) < sint (size_c c) \<and> 0 < length (lru c)
      then (case Back (lru c) of
              Some elem \<Rightarrow> evict (deleteElement c elem)
            | None \<Rightarrow> c)
      else c)"
  by pat_completeness auto
termination
proof (relation "measure (\<lambda>c. length (lru c))")
  show "wf (measure (\<lambda>c. length (lru c)))" by simp
next
  fix c :: memoryCache and elem
  assume "sint (maxSize c) < sint (size_c c) \<and> 0 < length (lru c)"
    and "Back (lru c) = Some elem"
  then have "elem \<in> set (lru c)"
    by (auto simp: Back_def split: if_splits)
  then have "length (remove1 elem (lru c)) < length (lru c)"
    by (simp add: length_remove1) (cases "lru c", auto)
  then show "(deleteElement c elem, c) \<in> measure (\<lambda>c. length (lru c))"
    by (simp add: deleteElement_def Remove_def)
qed

definition memoryCache_Set :: "memoryCache \<Rightarrow> string \<Rightarrow> Entry \<Rightarrow> memoryCache" where
  "memoryCache_Set c k e = evict (set_item c k e)"

definition memoryCache_Delete :: "memoryCache \<Rightarrow> string \<Rightarrow> memoryCache" where
  "memoryCache_Delete c k =
     (case items c k of Some item \<Rightarrow> deleteElement c item | None \<Rightarrow> c)"

definition memoryCache_Clear :: "memoryCache \<Rightarrow> memoryCache" where
  "memoryCache_Clear c = c\<lparr>items := Map.empty, lru := [], size_c := 0\<rparr>"

definition memoryCache_Size :: "memoryCache \<Rightarrow> int64" where
  "memoryCache_Size c = size_c c"

definition memoryCache_Len :: "memoryCache \<Rightarrow> nat" where
  "memoryCache_Len c = length (lru c)"

subsection \<open>Sequences of calls\<close>

datatype cache_op =
    OpGet string time
  | OpSet string Entry
  | OpDelete string
  | OpClear

fun cache_step :: "memoryCache \<Rightarrow> cache_op \<Rightarrow> memoryCache" where
  "cache_step c (OpGet k now) = fst (memoryCache_Get c now k)"
| "cache_step c (OpSet k e) = memoryCache_Set c k e"
| "cache_step c (OpDelete k) = memoryCache_Delete c k"
| "cache_step c OpClear = memoryCache_Clear c"

definition cache_run :: "memoryCache \<Rightarrow> cache_op list \<Rightarrow> memoryCache" where
  "cache_run c ops = foldl cache_step c ops"

text \<open>The entries of a cache, the sum of their sizes in \<^verbatim>\<open>int64\<close> arithmetic and as integers.\<close>

definition entries :: "memoryCache \<Rightarrow> Entry list" where
  "entries c = map entry (lru c)"

definition total_size :: "memoryCache \<Rightarrow> int64" where
  "total_size c = sum_list (map Size (entries c))"

definition exact_total_size :: "memoryCache \<Rightarrow> int" where
  "exact_total_size c = sum_list (map (\<lambda>e. sint (Size e)) (entries c))"

text \<open>
  The map and the list hold the same items: the keys of the list are pairwise different
  and \<^verbatim>\<open>items\<close> maps exactly the keys of the list, each to its item.
\<close>

definition cache_wf :: "memoryCache \<Rightarrow> bool" where
  "cache_wf c \<longleftrightarrow>
     distinct (map key (lru c)) \<and> items c = map_of (map (\<lambda>i. (key i, i)) (lru c))"

text \<open>The accounting invariant: the map and the list agree and the recorded size is the sum.\<close>

definition cache_inv :: "memoryCache \<Rightarrow> bool" where
  "cache_inv c \<longleftrightarrow> cache_wf c \<and> size_c c = total_size c"

text \<open>An entry as the tests build them: only its size and its expiry matter to the store.\<close>

definition test_entry :: "int64 \<Rightarrow> time \<Rightarrow> Entry" where
  "test_entry sz expires =
     \<lparr>StatusCode = 200, Headers = Map.empty, Body = [], ETag = [],
      ExpiresAt = expires, CreatedAt = 0, Size = sz\<rparr>"

subsection \<open>The order of use\<close>

text \<open>
  The keys of the list, front first. \<open>more_recent a b ks\<close>: the key \<open>a\<close> stands in \<open>ks\<close>
  before the key \<open>b\<close> (before every key, if \<open>b\<close> is not in \<open>ks\<close>), that is, nearer to the
  front. \<open>leaves a b op\<close>: the call \<open>op\<close> neither uses the key \<open>b\<close> (no \<^verbatim>\<open>Get\<close> or \<^verbatim>\<open>Set\<close>
  of it) nor removes the key \<open>a\<close> other than by eviction. \<open>size_keeping c n\<close>: the recorded
  size once all but the first \<open>n\<close> items of the list are deleted.
\<close>

definition lru_keys :: "memoryCache \<Rightarrow> string list" where
  "lru_keys c = map key (lru c)"

definition more_recent :: "string \<Rightarrow> string \<Rightarrow> string list \<Rightarrow> bool" where
  "more_recent a b ks \<longleftrightarrow> a \<in> set (takeWhile (\<lambda>x. x \<noteq> b) ks)"

fun leaves :: "string \<Rightarrow> string \<Rightarrow> cache_op \<Rightarrow> bool" where
  "leaves a b (OpSet k e) = (k \<noteq> b)"
| "leaves a b (OpGet k now) = (k \<noteq> a \<and> k \<noteq> b)"
| "leaves a b (OpDelete k) = (k \<noteq> a)"
| "leaves a b OpClear = True"

definition size_keeping :: "memoryCache \<Rightarrow> nat \<Rightarrow> int64" where
  "size_keeping c n = size_c c - sum_list (map (\<lambda>i. Size (entry i)) (drop n (lru c)))"

definition lru_order :: "string \<Rightarrow> string \<Rightarrow> memoryCache \<Rightarrow> bool" where
  "lru_order a b c \<longleftrightarrow> (b \<in> set (lru_keys c) \<longrightarrow> more_recent a b (lru_keys c))"

definition lru_test_ops :: "cache_op list" where
  "lru_test_ops = [OpSet ''a'' (test_entry 20 0), OpSet ''b'' (test_entry 20 0), OpGet ''a'' 0]"

subsection \<open>Exact sizes\<close>

text \<open>
  \<open>size_fits m op\<close>: a \<^verbatim>\<open>Set\<close> stores an entry whose \<^verbatim>\<open>Size\<close> is not negative and small
  enough for \<^verbatim>\<open>maxSize + Size\<close> to be an \<^verbatim>\<open>int64\<close> (the proxy stores \<^verbatim>\<open>len(body)\<close>), so
  that no sum of the store overflows. \<open>cache_exact\<close>: the invariant on exact sums.
\<close>

fun size_fits :: "int64 \<Rightarrow> cache_op \<Rightarrow> bool" where
  "size_fits m (OpSet k e) = (0 \<le> sint (Size e) \<and> sint (Size e) + sint m < 2 ^ 63)"
| "size_fits m (OpGet k now) = True"
| "size_fits m (OpDelete k) = True"
| "size_fits m OpClear = True"

definition sizes_nonneg :: "memoryCache \<Rightarrow> bool" where
  "sizes_nonneg c \<longleftrightarrow> list_all (\<lambda>e. 0 \<le> sint (Size e)) (entries c)"

definition cache_exact :: "memoryCache \<Rightarrow> bool" where
  "cache_exact c \<longleftrightarrow> cache_inv c \<and> sizes_nonneg c \<and> exact_total_size c \<le> sint (maxSize c)"

definition size_test_ops :: "cache_op list" where
  "size_test_ops =
     [OpSet ''a'' (test_entry 30 0), OpSet ''b'' (test_entry 9 0), OpGet ''a'' 0,
      OpSet ''c'' (test_entry 30 0), OpDelete ''b'']"

section \<open>The cache policy (internal/cache/cache.go)\<close>

subsection \<open>Strings and headers of the Go library\<close>

text \<open>
  A Go string is its list of bytes. \<^verbatim>\<open>strings.ToLower\<close> and \<^verbatim>\<open>strings.TrimSpace\<close> are
  modelled on ASCII, the alphabet of HTTP header values: the white space is tab, line
  feed, vertical tab, form feed, carriage return and space, and only the letters A to Z
  change case; bytes from 128 on are left as they are.
\<close>

definition isUpper :: "char \<Rightarrow> bool" where
  "isUpper c \<longleftrightarrow> (65 :: nat) \<le> of_char c \<and> of_char c \<le> (90 :: nat)"

definition isLower :: "char \<Rightarrow> bool" where
  "isLower c \<longleftrightarrow> (97 :: nat) \<le> of_char c \<and> of_char c \<le> (122 :: nat)"

definition isDigit :: "char \<Rightarrow> bool" where
  "isDigit c \<longleftrightarrow> (48 :: nat) \<le> of_char c \<and> of_char c \<le> (57 :: nat)"

definition toLower :: "char \<Rightarrow> char" where
  "toLower c = (if isUpper c then char_of (of_char c + (32 :: nat)) else c)"

definition toUpper :: "char \<Rightarrow> char" where
  "toUpper c = (if isLower c then char_of (of_char c - (32 :: nat)) else c)"

definition isSpace :: "char \<Rightarrow> bool" where
  "isSpace c \<longleftrightarrow> of_char c \<in> {9, 10, 11, 12, 13, 32 :: nat}"

definition ToLower :: "string \<Rightarrow> string" where
  "ToLower s = map toLower s"

definition TrimSpace :: "string \<Rightarrow> string" where
  "TrimSpace s = rev (dropWhile isSpace (rev (dropWhile isSpace s)))"

definition HasPrefix :: "string \<Rightarrow> string \<Rightarrow> bool" where
  "HasPrefix s p \<longleftrightarrow> take (length p) s = p"

text \<open>\<^verbatim>\<open>strings.Split(s, sep)\<close> for a separator of one byte: the empty string gives one empty part.\<close>

fun Split :: "string \<Rightarrow> char \<Rightarrow> string list" where
  "Split [] sep = [[]]"
| "Split (c # cs) sep =
     (if c = sep then [] # Split cs sep
      else (case Split cs sep of [] \<Rightarrow> [[c]] | p # ps \<Rightarrow> (c # p) # ps))"

text \<open>\<^verbatim>\<open>strings.SplitN(s, sep, 2)\<close>: the text before and after the first separator.\<close>

definition SplitN2 :: "string \<Rightarrow> char \<Rightarrow> string list" where
  "SplitN2 s sep =
     (if sep \<in> set s
      then [takeWhile (\<lambda>c. c \<noteq> sep) s, tl (dropWhile (\<lambda>c. c \<noteq> sep) s)]
      else [s])"

fun Join :: "string list \<Rightarrow> string \<Rightarrow> string" where
  "Join [] sep = []"
| "Join [p] sep = p"
| "Join (p # ps) sep = p @ sep @ Join ps sep"

definition IndexByte :: "string \<Rightarrow> char \<Rightarrow> nat option" where
  "IndexByte s c = (if c \<in> set s then Some (length (takeWhile (\<lambda>x. x \<noteq> c) s)) else None)"

definition LastIndexByte :: "string \<Rightarrow> char \<Rightarrow> nat option" where
  "LastIndexByte s c =
     (if c \<in> set s then Some (length s - 1 - length (takeWhile (\<lambda>x. x \<noteq> c) (rev s))) else None)"

text \<open>
  \<^verbatim>\<open>strconv.Atoi\<close> where \<^verbatim>\<open>int\<close> has 64 bits: an optional sign, then one or more decimal
  digits and nothing else, the value within the range of \<^verbatim>\<open>int\<close>; \<open>None\<close> is its error.
\<close>

definition digit_val :: "char \<Rightarrow> int" where
  "digit_val c = int (of_char c) - 48"

definition digits_val :: "string \<Rightarrow> int" where
  "digits_val ds = foldl (\<lambda>n c. n * 10 + digit_val c) 0 ds"

definition Atoi :: "string \<Rightarrow> int option" where
  "Atoi s =
     (let neg = (s \<noteq> [] \<and> hd s = CHR ''-'');
          ds = (if s \<noteq> [] \<and> (hd s = CHR ''-'' \<or> hd s = CHR ''+'') then tl s else s)
      in if ds = [] \<or> \<not> list_all isDigit ds then None
         else let n = (if neg then - digits_val ds else digits_val ds)
              in if - (2 ^ 63) \<le> n \<and> n < 2 ^ 63 then Some n else None)"

text \<open>
  \<^verbatim>\<open>textproto.CanonicalMIMEHeaderKey\<close>: a key made of header field bytes only gets its
  first letter and every letter after a hyphen in upper case and the other letters in
  lower case; any other key is returned unchanged. \<^verbatim>\<open>Header.Get\<close> looks the canonical
  key up and returns its first value, or the empty string.
\<close>

definition validHeaderFieldByte :: "char \<Rightarrow> bool" where
  "validHeaderFieldByte c \<longleftrightarrow>
     isUpper c \<or> isLower c \<or> isDigit c \<or>
     of_char c \<in> {33, 35, 36, 37, 38, 39, 42, 43, 45, 46, 94, 95, 96, 124, 126 :: nat}"

fun canonical :: "bool \<Rightarrow> string \<Rightarrow> string" where
  "canonical upper [] = []"
| "canonical upper (c # cs) =
     (let c' = (if upper \<and> isLower c then toUpper c
                else if \<not> upper \<and> isUpper c then toLower c
                else c)
      in c' # canonical (c' = CHR ''-'') cs)"

definition CanonicalMIMEHeaderKey :: "string \<Rightarrow> string" where
  "CanonicalMIMEHeaderKey s = (if list_all validHeaderFieldByte s then canonical True s else s)"

definition Header_Get :: "Header \<Rightarrow> string \<Rightarrow> string" where
  "Header_Get h k =
     (case h (CanonicalMIMEHeaderKey k) of
        None \<Rightarrow> []
      | Some [] \<Rightarrow> []
      | Some (v # vs) \<Rightarrow> v)"

text \<open>The fields of \<^verbatim>\<open>http.Request\<close> that the repository reads.\<close>

record URL =
  Path :: string
  RawQuery :: string

record Request =
  Method :: string
  URL :: URL
  Header :: Header
  RemoteAddr :: string

subsection \<open>CacheKey\<close>

text \<open>
  The digest \<^verbatim>\<open>hex.EncodeToString(md5.Sum(...))\<close> of the Go library is the parameter
  \<open>md5hex\<close>. The loop over \<^verbatim>\<open>varyHeaders\<close> is \<open>vary_parts\<close>.
\<close>

fun vary_parts :: "Request \<Rightarrow> string list \<Rightarrow> string list \<Rightarrow> string list" where
  "vary_parts r parts [] = parts"
| "vary_parts r parts (header # hs) =
     (let val = Header_Get (Header r) header
      in if val \<noteq> [] then vary_parts r (parts @ [header @ '':'' @ val]) hs
         else vary_parts r parts hs)"

definition CacheKey :: "(string \<Rightarrow> string) \<Rightarrow> Request \<Rightarrow> string list \<Rightarrow> string" where
  "CacheKey md5hex r varyHeaders =
     (let parts = [Method r, Path (URL r)];
          parts = (if RawQuery (URL r) \<noteq> [] then parts @ [RawQuery (URL r)] else parts);
          parts = vary_parts r parts varyHeaders
      in md5hex (Join parts ''|''))"

subsection \<open>IsCacheable\<close>

text \<open>The loop over the directives: \<open>False\<close> at the first restrictive one.\<close>

fun directives_allow :: "string list \<Rightarrow> bool" where
  "directives_allow [] = True"
| "directives_allow (directive # ds) =
     (let directive = TrimSpace (ToLower directive)
      in if directive = ''no-store'' \<or> directive = ''no-cache'' \<or> directive = ''private''
         then False
         else directives_allow ds)"

definition IsCacheable :: "Request \<Rightarrow> int \<Rightarrow> Header \<Rightarrow> bool" where
  "IsCacheable r statusCode headers =
     (if Method r \<noteq> ''GET'' \<and> Method r \<noteq> ''HEAD'' then False
      else if statusCode \<ge> 500 \<or> (statusCode \<ge> 400 \<and> statusCode \<noteq> 404) then False
      else let cacheControl = Header_Get headers ''Cache-Control''
           in if cacheControl \<noteq> [] then directives_allow (Split cacheControl CHR '','')
              else True)"

subsection \<open>ParseTTL\<close>

text \<open>
  \<^verbatim>\<open>time.Second\<close> in nanoseconds; the product \<^verbatim>\<open>time.Duration(seconds) * time.Second\<close> is an
  \<^verbatim>\<open>int64\<close> product and wraps around. \<^verbatim>\<open>t.Sub(u)\<close> is the difference of two instants,
  kept within the range of a \<^verbatim>\<open>Duration\<close>. \<^verbatim>\<open>http.ParseTime\<close> of the Go library is the
  parameter \<open>ParseTime\<close> (\<open>None\<close> is its error), and \<open>now\<close> is what \<^verbatim>\<open>time.Now()\<close> returns.
\<close>

definition Second :: int64 where
  "Second = 1000000000"

definition Millisecond :: int64 where
  "Millisecond = 1000000"

definition Sub :: "time \<Rightarrow> time \<Rightarrow> int" where
  "Sub t u = max (- (2 ^ 63)) (min (2 ^ 63 - 1) (t - u))"

definition Until :: "time \<Rightarrow> time \<Rightarrow> int64" where
  "Until now t = word_of_int (Sub t now)"

text \<open>The loop over the directives: the duration of the first \<^verbatim>\<open>max-age\<close> that \<^verbatim>\<open>Atoi\<close> reads.\<close>

fun max_age :: "string list \<Rightarrow> int64 option" where
  "max_age [] = None"
| "max_age (directive # ds) =
     (let directive = TrimSpace directive
      in if HasPrefix (ToLower directive) ''max-age=''
         then (let parts = SplitN2 directive CHR ''=''
               in if length parts = 2
                  then (case Atoi (parts ! 1) of
                          Some seconds \<Rightarrow> Some (word_of_int seconds * Second)
                        | None \<Rightarrow> max_age ds)
                  else max_age ds)
         else max_age ds)"

definition ParseTTL :: "(string \<Rightarrow> time option) \<Rightarrow> time \<Rightarrow> Header \<Rightarrow> int64 \<Rightarrow> int64" where
  "ParseTTL ParseTime now headers defaultTTL' =
     (let cacheControl = Header_Get headers ''Cache-Control''
      in if cacheControl = [] then defaultTTL'
         else (case max_age (Split cacheControl CHR '','') of
                 Some d \<Rightarrow> d
               | None \<Rightarrow>
                   (let expires = Header_Get headers ''Expires''
                    in if expires \<noteq> []
                       then (case ParseTime expires of
                               Some t \<Rightarrow>
                                 (let ttl = Until now t
                                  in if 0 < sint ttl then ttl else defaultTTL')
                             | None \<Rightarrow> defaultTTL')
                       else defaultTTL')))"

section \<open>The rate limiter (internal/ratelimit/ratelimit.go)\<close>

subsection \<open>float64\<close>

text \<open>
  A \<^verbatim>\<open>float64\<close> is modelled by the real number it denotes. Every arithmetic operation and
  every conversion of the source is the exact operation followed by the rounding of the
  machine, \<open>rnd\<close>, a parameter of each function below. \<open>float64_rounding rnd\<close> collects what
  the theorems need of it, all of it true of IEEE 754 rounding to nearest on finite
  values: it is monotone, it keeps the integers up to \<open>2 ^ 53\<close>, and in the range of the
  normal numbers it raises a value by at most the fraction \<open>1 / 2 ^ 53\<close> of it. The
  identity, \<open>exact\<close>, is such a rounding: it is the arithmetic of the real numbers.
  Infinities and NaN are not values of the model: the one place where the source can
  produce them, a division by a zero rate, is a case of its own in \<open>tokenBucket_Wait\<close>.
\<close>

definition float64_rounding :: "(real \<Rightarrow> real) \<Rightarrow> bool" where
  "float64_rounding rnd \<longleftrightarrow>
     (\<forall>x y. x \<le> y \<longrightarrow> rnd x \<le> rnd y) \<and>
     (\<forall>n :: int. \<bar>n\<bar> \<le> 2 ^ 53 \<longrightarrow> rnd (of_int n) = of_int n) \<and>
     (\<forall>x. 1 / 2 ^ 1022 \<le> x \<and> x \<le> 2 ^ 1023 \<longrightarrow> rnd x \<le> x * (1 + 1 / 2 ^ 53))"

definition exact :: "real \<Rightarrow> real" where
  "exact x = x"

text \<open>The function \<^verbatim>\<open>min\<close> of the source.\<close>

definition min_f :: "real \<Rightarrow> real \<Rightarrow> real" where
  "min_f a b = (if a < b then a else b)"

text \<open>
  The division and the remainder of Go's integers truncate towards zero.
  \<^verbatim>\<open>Duration.Seconds\<close> is \<^verbatim>\<open>float64(d / Second) + float64(d % Second) / 1e9\<close>. The
  conversion \<^verbatim>\<open>time.Duration(f)\<close> of a \<^verbatim>\<open>float64\<close> drops the fraction; outside the range of
  \<^verbatim>\<open>int64\<close> the language leaves its result to the implementation (\<open>None\<close>).
\<close>

definition quot :: "int \<Rightarrow> int \<Rightarrow> int" where
  "quot a b = (if (a < 0) = (b < 0) then \<bar>a\<bar> div \<bar>b\<bar> else - (\<bar>a\<bar> div \<bar>b\<bar>))"

definition rem :: "int \<Rightarrow> int \<Rightarrow> int" where
  "rem a b = a - b * quot a b"

definition Seconds :: "(real \<Rightarrow> real) \<Rightarrow> int \<Rightarrow> real" where
  "Seconds rnd d =
     (let sec = quot d 1000000000;
          nsec = rem d 1000000000
      in rnd (rnd (of_int sec) + rnd (rnd (of_int nsec) / 1000000000)))"

definition Duration_of_float :: "real \<Rightarrow> int64 option" where
  "Duration_of_float x =
     (let n = (if 0 \<le> x then \<lfloor>x\<rfloor> else \<lceil>x\<rceil>)
      in if - (2 ^ 63) \<le> n \<and> n < 2 ^ 63 then Some (word_of_int n) else None)"

subsection \<open>The token bucket\<close>

text \<open>
  The mutexes, the ticker and the channel are left out. A call of \<^verbatim>\<open>Allow\<close> is one step:
  calls on one key are serialised by the mutex of its bucket, and a bucket is read and
  written under that mutex only. The readings of the clock are arguments: \<open>created\<close> is
  what \<^verbatim>\<open>time.Now()\<close> returns when the bucket is made, \<open>now\<close> what it returns under the
  mutex of the bucket.
\<close>

record bucket =
  tokens :: real
  lastRefill :: time

record tokenBucket =
  rate :: real
  burst :: int
  buckets :: "string \<rightharpoonup> bucket"

definition NewTokenBucket :: "(real \<Rightarrow> real) \<Rightarrow> int \<Rightarrow> int \<Rightarrow> tokenBucket" where
  "NewTokenBucket rnd requestsPerSecond burst' =
     \<lparr>rate = rnd (of_int requestsPerSecond), burst = burst', buckets = Map.empty\<rparr>"

definition tokenBucket_Allow ::
  "(real \<Rightarrow> real) \<Rightarrow> tokenBucket \<Rightarrow> string \<Rightarrow> time \<Rightarrow> time \<Rightarrow> tokenBucket \<times> bool" where
  "tokenBucket_Allow rnd tb k created now =
     (let b = (case buckets tb k of
                 Some b \<Rightarrow> b
               | None \<Rightarrow> \<lparr>tokens = rnd (of_int (burst tb)), lastRefill = created\<rparr>);
          elapsed = Seconds rnd (Sub now (lastRefill b));
          b = b\<lparr>tokens := min_f (rnd (of_int (burst tb))) (rnd (tokens b + rnd (elapsed * rate tb)))\<rparr>;
          b = b\<lparr>lastRefill := now\<rparr>
      in if tokens b \<ge> 1
         then (tb\<lparr>buckets := (buckets tb)(k \<mapsto> b\<lparr>tokens := rnd (tokens b - 1)\<rparr>)\<rparr>, True)
         else (tb\<lparr>buckets := (buckets tb)(k \<mapsto> b)\<rparr>, False))"

text \<open>
  \<^verbatim>\<open>Wait\<close> writes nothing; it returns the limiter as it got it. With a zero rate the
  quotient of the source is infinite and its conversion has no defined result.
\<close>

definition tokenBucket_Wait ::
  "(real \<Rightarrow> real) \<Rightarrow> tokenBucket \<Rightarrow> string \<Rightarrow> tokenBucket \<times> int64 option" where
  "tokenBucket_Wait rnd tb k =
     (case buckets tb k of
        None \<Rightarrow> (tb, Some 0)
      | Some b \<Rightarrow>
          if tokens b \<ge> 1 then (tb, Some 0)
          else (let tokensNeeded = rnd (1 - tokens b)
                in if rate tb = 0 then (tb, None)
                   else (case Duration_of_float (rnd (rnd (tokensNeeded / rate tb) * 1000)) of
                           None \<Rightarrow> (tb, None)
                         | Some d \<Rightarrow> (tb, Some (d * Millisecond)))))"

text \<open>One sweep of \<^verbatim>\<open>cleanup\<close>: the buckets idle for more than five minutes are deleted.\<close>

definition cleanup_sweep :: "tokenBucket \<Rightarrow> time \<Rightarrow> tokenBucket" where
  "cleanup_sweep tb now =
     tb\<lparr>buckets := (\<lambda>k. case buckets tb k of
                            None \<Rightarrow> None
                          | Some b \<Rightarrow>
                              if 5 * 60 * 1000000000 < Sub now (lastRefill b) then None
                              else Some b)\<rparr>"

subsection \<open>Sequences of calls on the limiter\<close>

text \<open>
  The clock is monotonic: between two readings it advances by a delay that is not
  negative. A state of the run is the limiter and the last reading of the clock.
  \<open>OpAllow k d1 d2\<close> is a call \<^verbatim>\<open>Allow(k)\<close> whose two readings come after the delays \<open>d1\<close>
  and \<open>d2\<close>; \<open>OpCleanup d\<close> is a sweep after the delay \<open>d\<close>.
\<close>

datatype limiter_op =
    OpAllow string nat nat
  | OpWait string
  | OpCleanup nat

fun limiter_step ::
  "(real \<Rightarrow> real) \<Rightarrow> tokenBucket \<times> time \<Rightarrow> limiter_op \<Rightarrow> tokenBucket \<times> time" where
  "limiter_step rnd (tb, clock) (OpAllow k d1 d2) =
     (fst (tokenBucket_Allow rnd tb k (clock + int d1) (clock + int d1 + int d2)),
      clock + int d1 + int d2)"
| "limiter_step rnd (tb, clock) (OpWait k) = (fst (tokenBucket_Wait rnd tb k), clock)"
| "limiter_step rnd (tb, clock) (OpCleanup d) = (cleanup_sweep tb (clock + int d), clock + int d)"

definition limiter_run ::
  "(real \<Rightarrow> real) \<Rightarrow> tokenBucket \<times> time \<Rightarrow> limiter_op list \<Rightarrow> tokenBucket \<times> time" where
  "limiter_run rnd s ops = foldl (limiter_step rnd) s ops"

text \<open>\<open>allow_times rnd tb k t n\<close>: \<open>n\<close> calls \<^verbatim>\<open>Allow(k)\<close> in a row, all at the instant \<open>t\<close>.\<close>

fun allow_times ::
  "(real \<Rightarrow> real) \<Rightarrow> tokenBucket \<Rightarrow> string \<Rightarrow> time \<Rightarrow> nat \<Rightarrow> tokenBucket \<times> bool list" where
  "allow_times rnd tb k t 0 = (tb, [])"
| "allow_times rnd tb k t (Suc n) =
     (let r = tokenBucket_Allow rnd tb k t t;
          rs = allow_times rnd (fst r) k t n
      in (fst rs, snd r # snd rs))"

text \<open>
  The invariant of a run: every bucket holds between 0 and \<^verbatim>\<open>burst\<close> tokens and was
  refilled no later than the last reading of the clock.
\<close>

definition limiter_inv :: "tokenBucket \<times> time \<Rightarrow> bool" where
  "limiter_inv s \<longleftrightarrow>
     (\<forall>k b. buckets (fst s) k = Some b \<longrightarrow>
        0 \<le> tokens b \<and> tokens b \<le> of_int (burst (fst s)) \<and> lastRefill b \<le> snd s)"

definition limiter_test_ops :: "limiter_op list" where
  "limiter_test_ops = [OpAllow ''k'' 0 0, OpAllow ''k'' 0 150000000, OpWait ''k'', OpCleanup 0]"

section \<open>Key extractors (internal/ratelimit/ratelimit.go)\<close>

text \<open>
  \<^verbatim>\<open>net.SplitHostPort\<close> of the Go library: the port follows the last colon; a host in
  brackets ends at the first closing bracket, which must stand right before that
  colon; a host without brackets has no colon; no other bracket may occur. \<open>None\<close> is its
  error.
\<close>

definition SplitHostPort :: "string \<Rightarrow> (string \<times> string) option" where
  "SplitHostPort hostport =
     (case LastIndexByte hostport CHR '':'' of
        None \<Rightarrow> None
      | Some i \<Rightarrow>
          (let rest = (\<lambda>host j k.
                 if CHR ''['' \<in> set (drop j hostport) then None
                 else if CHR '']'' \<in> set (drop k hostport) then None
                 else Some (host, drop (i + 1) hostport))
           in if hd hostport = CHR ''[''
              then (case IndexByte hostport CHR '']'' of
                      None \<Rightarrow> None
                    | Some end \<Rightarrow>
                        if end + 1 = length hostport then None
                        else if end + 1 = i then rest (take (end - 1) (drop 1 hostport)) 1 (end + 1)
                        else None)
              else (let host = take i hostport
                    in if CHR '':'' \<in> set host then None else rest host 0 0)))"

text \<open>The loop of \<^verbatim>\<open>IPKeyExtractor\<close> over the bytes of \<^verbatim>\<open>X-Forwarded-For\<close>.\<close>

function first_in_list :: "string \<Rightarrow> nat \<Rightarrow> string" where
  "first_in_list xff idx =
     (if idx < length xff
      then (if xff ! idx = CHR '','' then take idx xff else first_in_list xff (Suc idx))
      else xff)"
  by pat_completeness auto
termination
  by (relation "measure (\<lambda>(xff, idx). length xff - idx)") auto

definition IPKeyExtractor :: "Request \<Rightarrow> string" where
  "IPKeyExtractor r =
     (let xff = Header_Get (Header r) ''X-Forwarded-For''
      in if xff \<noteq> [] then first_in_list xff 0
         else (let xri = Header_Get (Header r) ''X-Real-IP''
               in if xri \<noteq> [] then xri
                  else (case SplitHostPort (RemoteAddr r) of
                          None \<Rightarrow> RemoteAddr r
                        | Some (host, port) \<Rightarrow> host)))"

definition APIKeyExtractor :: "string \<Rightarrow> Request \<Rightarrow> string" where
  "APIKeyExtractor headerName r =
     (let k = Header_Get (Header r) headerName
      in if k = [] then IPKeyExtractor r else ''apikey:'' @ k)"

section \<open>Requests and headers of the tests\<close>

text \<open>
  \<^verbatim>\<open>Header.Set\<close> stores one value under the canonical key. \<open>test_request\<close> is the request
  that \<^verbatim>\<open>TestIPKeyExtractor\<close> builds, \<open>cache_control\<close> and \<open>method_request\<close> the headers
  and the request of \<^verbatim>\<open>FuzzIsCacheable\<close>. \<open>restrictive d\<close>: the directive \<open>d\<close>, in lower case and
  trimmed, is \<^verbatim>\<open>no-store\<close>, \<^verbatim>\<open>no-cache\<close> or \<^verbatim>\<open>private\<close>.
\<close>

definition Header_Set :: "Header \<Rightarrow> string \<Rightarrow> string \<Rightarrow> Header" where
  "Header_Set h k v = h(CanonicalMIMEHeaderKey k \<mapsto> [v])"

definition test_request :: "string \<Rightarrow> string \<Rightarrow> string \<Rightarrow> Request" where
  "test_request remoteAddr xff xri =
     (let h = Map.empty;
          h = (if xff \<noteq> [] then Header_Set h ''X-Forwarded-For'' xff else h);
          h = (if xri \<noteq> [] then Header_Set h ''X-Real-IP'' xri else h)
      in \<lparr>Method = ''GET'', URL = \<lparr>Path = ''/'', RawQuery = []\<rparr>, Header = h,
          RemoteAddr = remoteAddr\<rparr>)"

definition cache_control :: "string \<Rightarrow> Header" where
  "cache_control v = (if v \<noteq> [] then Header_Set Map.empty ''Cache-Control'' v else Map.empty)"

definition method_request :: "string \<Rightarrow> Request" where
  "method_request m = \<lparr>Method = m, URL = \<lparr>Path = ''/'', RawQuery = []\<rparr>, Header = Map.empty, RemoteAddr = []\<rparr>"

definition restrictive :: "string \<Rightarrow> bool" where
  "restrictive d \<longleftrightarrow> TrimSpace (ToLower d) \<in> {''no-store'', ''no-cache'', ''private''}"

section \<open>Properties of the cache store\<close>

subsection \<open>The invariant of the store\<close>

declare evict.simps [simp del]

lemma map_of_key_remove1:
  "distinct (map key l) \<Longrightarrow> it \<in> set l \<Longrightarrow>
   map_of (map (\<lambda>i. (key i, i)) (remove1 it l)) = (map_of (map (\<lambda>i. (key i, i)) l))(key it := None)"
proof (induction l)
  case Nil
  then show ?case by simp
next
  case (Cons x l)
  show ?case
  proof (cases "x = it")
    case True
    with Cons.prems have "key it \<notin> key ` set l" by auto
    then have "map_of (map (\<lambda>i. (key i, i)) l) (key it) = None"
      by (simp add: map_of_eq_None_iff image_image)
    with True show ?thesis by (auto simp: fun_upd_idem)
  next
    case False
    with Cons.prems have mem: "it \<in> set l" and d: "distinct (map key l)" by auto
    from Cons.prems mem have "key x \<noteq> key it" by auto
    with False Cons.IH [OF d mem] show ?thesis by (auto simp: fun_upd_twist)
  qed
qed

lemma wf_items_mem:
  "cache_wf c \<Longrightarrow> items c k = Some it \<Longrightarrow> it \<in> set (lru c) \<and> key it = k"
  by (auto simp: cache_wf_def dest!: map_of_SomeD)

lemma wf_items_None:
  "cache_wf c \<Longrightarrow> items c k = None \<Longrightarrow> k \<notin> key ` set (lru c)"
  by (auto simp: cache_wf_def map_of_eq_None_iff image_image)

lemma distinct_key_remove1: "distinct (map key l) \<Longrightarrow> distinct (map key (remove1 it l))"
  by (auto simp: distinct_map intro: inj_on_diff)

lemma cache_wf_deleteElement:
  "cache_wf c \<Longrightarrow> it \<in> set (lru c) \<Longrightarrow> cache_wf (deleteElement c it)"
  by (simp add: cache_wf_def deleteElement_def Remove_def map_of_key_remove1 distinct_key_remove1)

lemma total_size_deleteElement:
  "it \<in> set (lru c) \<Longrightarrow> total_size (deleteElement c it) = total_size c - Size (entry it)"
  using sum_list_map_remove1 [of it "lru c" "\<lambda>i. Size (entry i)"]
  by (simp add: total_size_def entries_def deleteElement_def Remove_def comp_def)

lemma cache_inv_deleteElement:
  "cache_inv c \<Longrightarrow> it \<in> set (lru c) \<Longrightarrow> cache_inv (deleteElement c it)"
  by (simp add: cache_inv_def cache_wf_deleteElement total_size_deleteElement)
    (simp add: deleteElement_def)

lemma key_notin_remove1:
  "distinct (map key l) \<Longrightarrow> it \<in> set l \<Longrightarrow> key it \<notin> key ` set (remove1 it l)"
  by (auto simp: distinct_map inj_on_def)

lemma cache_inv_set_item: "cache_inv c \<Longrightarrow> cache_inv (set_item c k e)"
proof (cases "items c k")
  case None
  assume inv: "cache_inv c"
  then have "k \<notin> key ` set (lru c)" using None by (simp add: cache_inv_def wf_items_None)
  with inv None show ?thesis
    by (auto simp: cache_inv_def cache_wf_def set_item_def PushFront_def total_size_def entries_def Let_def)
next
  case (Some it)
  assume inv: "cache_inv c"
  then have wf: "cache_wf c" and sz: "size_c c = total_size c" by (simp_all add: cache_inv_def)
  from wf_items_mem [OF wf Some] have mem: "it \<in> set (lru c)" and k: "key it = k" by simp_all
  from wf have d: "distinct (map key (lru c))" by (simp add: cache_wf_def)
  have nk: "k \<notin> key ` set (remove1 it (lru c))"
    using key_notin_remove1 [OF d mem] k by simp
  have m: "map_of (map (\<lambda>i. (key i, i)) (remove1 it (lru c))) = (items c)(k := None)"
    using map_of_key_remove1 [OF d mem] wf k by (simp add: cache_wf_def)
  have s: "sum_list (map (\<lambda>i. Size (entry i)) (lru c))
            = Size (entry it) + sum_list (map (\<lambda>i. Size (entry i)) (remove1 it (lru c)))"
    by (rule sum_list_map_remove1 [OF mem])
  show ?thesis
    using Some nk m s sz k distinct_key_remove1 [OF d, of it]
    by (simp add: cache_inv_def cache_wf_def set_item_def Let_def total_size_def entries_def comp_def)
qed

lemma Back_mem: "Back l = Some e \<Longrightarrow> e \<in> set l"
  by (auto simp: Back_def split: if_splits)

lemma evict_stop:
  "\<not> (sint (maxSize c) < sint (size_c c) \<and> 0 < length (lru c)) \<Longrightarrow> evict c = c"
  by (subst evict.simps) auto

lemma evict_step:
  "sint (maxSize c) < sint (size_c c) \<Longrightarrow> lru c \<noteq> [] \<Longrightarrow>
   evict c = evict (deleteElement c (last (lru c)))"
  by (subst evict.simps) (simp add: Back_def)

lemma evict_induct [consumes 0, case_names stop step]:
  assumes "\<And>c. \<not> (sint (maxSize c) < sint (size_c c) \<and> 0 < length (lru c)) \<Longrightarrow> P c"
    and "\<And>c. sint (maxSize c) < sint (size_c c) \<Longrightarrow> lru c \<noteq> [] \<Longrightarrow>
           P (deleteElement c (last (lru c))) \<Longrightarrow> P c"
  shows "P c"
proof (induction c rule: evict.induct)
  case (1 c)
  show ?case
  proof (cases "sint (maxSize c) < sint (size_c c) \<and> 0 < length (lru c)")
    case False
    then show ?thesis by (rule assms(1))
  next
    case True
    then have b: "Back (lru c) = Some (last (lru c))" by (simp add: Back_def)
    from True "1.IH" [OF True b] show ?thesis by (auto intro: assms(2))
  qed
qed

lemma cache_inv_evict: "cache_inv c \<Longrightarrow> cache_inv (evict c)"
proof (induction c rule: evict_induct)
  case (stop c)
  then show ?case by (simp add: evict_stop)
next
  case (step c)
  then show ?case by (simp add: evict_step cache_inv_deleteElement)
qed

lemma maxSize_deleteElement [simp]: "maxSize (deleteElement c it) = maxSize c"
  by (simp add: deleteElement_def)

lemma maxSize_evict [simp]: "maxSize (evict c) = maxSize c"
proof (induction c rule: evict_induct)
  case (stop c)
  then show ?case by (simp add: evict_stop)
next
  case (step c)
  then show ?case by (simp add: evict_step)
qed

lemma evict_fits: "sint (size_c (evict c)) \<le> sint (maxSize c) \<or> lru (evict c) = []"
proof (induction c rule: evict_induct)
  case (stop c)
  then show ?case by (auto simp: evict_stop)
next
  case (step c)
  then show ?case by (simp add: evict_step)
qed

lemma cache_inv_Set: "cache_inv c \<Longrightarrow> cache_inv (memoryCache_Set c k e)"
  by (simp add: memoryCache_Set_def cache_inv_evict cache_inv_set_item)

lemma cache_inv_Delete: "cache_inv c \<Longrightarrow> cache_inv (memoryCache_Delete c k)"
proof (cases "items c k")
  case None
  assume "cache_inv c"
  with None show ?thesis by (simp add: memoryCache_Delete_def)
next
  case (Some it)
  assume inv: "cache_inv c"
  then have "it \<in> set (lru c)" using Some wf_items_mem by (auto simp: cache_inv_def)
  with inv Some show ?thesis by (simp add: memoryCache_Delete_def cache_inv_deleteElement)
qed

lemma cache_inv_Clear: "cache_inv (memoryCache_Clear c)"
  by (simp add: cache_inv_def cache_wf_def memoryCache_Clear_def total_size_def entries_def)

lemma cache_inv_Get: "cache_inv c \<Longrightarrow> cache_inv (fst (memoryCache_Get c now k))"
proof (cases "items c k")
  case None
  assume "cache_inv c"
  with None show ?thesis by (simp add: memoryCache_Get_def)
next
  case (Some it)
  assume inv: "cache_inv c"
  then have wf: "cache_wf c" and sz: "size_c c = total_size c" by (simp_all add: cache_inv_def)
  from wf_items_mem [OF wf Some] have mem: "it \<in> set (lru c)" and k: "key it = k" by simp_all
  from wf have d: "distinct (map key (lru c))" by (simp add: cache_wf_def)
  show ?thesis
  proof (cases "ExpiresAt (entry it) < now")
    case True
    with inv Some mem show ?thesis by (simp add: memoryCache_Get_def cache_inv_deleteElement)
  next
    case False
    have m: "map_of (map (\<lambda>i. (key i, i)) (remove1 it (lru c))) = (items c)(k := None)"
      using map_of_key_remove1 [OF d mem] wf k by (simp add: cache_wf_def)
    have s: "sum_list (map (\<lambda>i. Size (entry i)) (lru c))
              = Size (entry it) + sum_list (map (\<lambda>i. Size (entry i)) (remove1 it (lru c)))"
      by (rule sum_list_map_remove1 [OF mem])
    have nk: "k \<notin> key ` set (remove1 it (lru c))"
      using key_notin_remove1 [OF d mem] k by simp
    have "(items c)(k \<mapsto> it) = items c" using Some by (simp add: fun_upd_idem)
    with False Some mem m s nk sz k distinct_key_remove1 [OF d, of it] show ?thesis
      by (simp add: memoryCache_Get_def MoveToFront_def cache_inv_def cache_wf_def
         total_size_def entries_def comp_def)
  qed
qed

lemma cache_inv_step: "cache_inv c \<Longrightarrow> cache_inv (cache_step c op)"
  by (cases op) (simp_all add: cache_inv_Get cache_inv_Set cache_inv_Delete cache_inv_Clear)

lemma cache_inv_run: "cache_inv c \<Longrightarrow> cache_inv (cache_run c ops)"
  unfolding cache_run_def by (induction ops arbitrary: c) (simp_all add: cache_inv_step)

lemma cache_inv_New: "cache_inv (NewMemoryCache m ttl)"
  by (simp add: cache_inv_def cache_wf_def NewMemoryCache_def total_size_def entries_def)

lemma sum_list_word_of_int:
  "sum_list (ws :: 64 word list) = word_of_int (sum_list (map sint ws))"
  by (induction ws) simp_all

lemma sint_sum_list_exact:
  assumes "- (2 ^ 63) \<le> sum_list (map sint (ws :: 64 word list))"
    and "sum_list (map sint ws) < 2 ^ 63"
  shows "sint (sum_list ws) = sum_list (map sint ws)"
proof -
  have "sint (sum_list ws) = signed_take_bit 63 (sum_list (map sint ws))"
    by (subst sum_list_word_of_int) (simp add: sint_sbintrunc')
  also have "\<dots> = sum_list (map sint ws)"
    using assms by (intro signed_take_bit_int_eq_self) simp_all
  finally show ?thesis .
qed

lemma cache_run_snoc: "cache_run c (ops @ [op]) = cache_step (cache_run c ops) op"
  by (simp add: cache_run_def)

lemma Set_fits:
  assumes "cache_inv c" and "0 \<le> sint (maxSize c)"
  shows "sint (size_c (memoryCache_Set c k e)) \<le> sint (maxSize c)"
proof -
  let ?c' = "evict (set_item c k e)"
  have m: "maxSize (set_item c k e) = maxSize c"
    by (simp add: set_item_def Let_def split: option.splits)
  have inv: "cache_inv ?c'"
    using assms(1) by (simp add: cache_inv_evict cache_inv_set_item)
  from evict_fits [of "set_item c k e"] show ?thesis
  proof
    assume "sint (size_c ?c') \<le> sint (maxSize (set_item c k e))"
    then show ?thesis by (simp add: m memoryCache_Set_def)
  next
    assume "lru ?c' = []"
    with inv have "size_c ?c' = 0"
      by (simp add: cache_inv_def total_size_def entries_def)
    with assms(2) show ?thesis by (simp add: memoryCache_Set_def)
  qed
qed

lemma maxSize_step [simp]: "maxSize (cache_step c op) = maxSize c"
  by (cases op)
    (simp_all add: memoryCache_Get_def memoryCache_Set_def memoryCache_Delete_def
      memoryCache_Clear_def set_item_def Let_def split: option.splits)

lemma maxSize_run [simp]: "maxSize (cache_run c ops) = maxSize c"
  unfolding cache_run_def by (induction ops arbitrary: c) simp_all

subsection \<open>The list of the cache under each method\<close>

lemma remove1_last_distinct: "distinct l \<Longrightarrow> l \<noteq> [] \<Longrightarrow> remove1 (last l) l = butlast l"
  by (induction l) auto

lemma wf_distinct_lru: "cache_wf c \<Longrightarrow> distinct (lru c)"
  by (auto simp: cache_wf_def distinct_map)

lemma lru_delete_last:
  "cache_wf c \<Longrightarrow> lru c \<noteq> [] \<Longrightarrow> lru (deleteElement c (last (lru c))) = butlast (lru c)"
  by (simp add: deleteElement_def Remove_def remove1_last_distinct wf_distinct_lru)

lemma size_delete_last:
  "size_c (deleteElement c it) = size_c c - Size (entry it)"
  by (simp add: deleteElement_def)

lemma evict_prefix_ex: "cache_wf c \<Longrightarrow> \<exists>n. lru (evict c) = take n (lru c)"
proof (induction c rule: evict_induct)
  case (stop c)
  then have "lru (evict c) = take (length (lru c)) (lru c)" by (simp add: evict_stop)
  then show ?case ..
next
  case (step c)
  let ?c1 = "deleteElement c (last (lru c))"
  have "cache_wf ?c1" using step by (simp add: cache_wf_deleteElement)
  with step obtain n where "lru (evict ?c1) = take n (lru ?c1)" by blast
  then have "lru (evict c) = take n (butlast (lru c))"
    using step by (simp add: evict_step lru_delete_last)
  then have "lru (evict c) = take (min n (length (lru c) - 1)) (lru c)"
    by (simp add: butlast_conv_take min.commute)
  then show ?case ..
qed

lemma evict_prefix: "cache_wf c \<Longrightarrow> lru (evict c) = take (length (lru (evict c))) (lru c)"
proof -
  assume "cache_wf c"
  then obtain n where n: "lru (evict c) = take n (lru c)" using evict_prefix_ex by blast
  then have "length (lru (evict c)) = min n (length (lru c))" by simp
  with n show ?thesis by (cases "n \<le> length (lru c)") (simp_all add: min_def)
qed

lemma evict_needed:
  "cache_wf c \<Longrightarrow> length (lru (evict c)) < n \<Longrightarrow> n \<le> length (lru c) \<Longrightarrow>
   sint (maxSize c) < sint (size_keeping c n)"
proof (induction c rule: evict_induct)
  case (stop c)
  then show ?case by (simp add: evict_stop)
next
  case (step c)
  let ?l = "lru c"
  let ?c1 = "deleteElement c (last ?l)"
  have wf1: "cache_wf ?c1" using step by (simp add: cache_wf_deleteElement)
  have l1: "lru ?c1 = butlast ?l" using step by (simp add: lru_delete_last)
  show ?case
  proof (cases "n = length ?l")
    case True
    with step show ?thesis by (simp add: size_keeping_def)
  next
    case False
    with step.prems have lt: "n < length ?l" by simp
    then have n1: "n \<le> length (lru ?c1)" by (simp add: l1)
    have ev: "length (lru (evict ?c1)) < n" using step by (simp add: evict_step)
    have ih: "sint (maxSize ?c1) < sint (size_keeping ?c1 n)"
      by (rule step.IH [OF wf1 ev n1])
    have "drop n ?l = drop n (butlast ?l @ [last ?l])"
      using step.hyps(2) by simp
    also have "\<dots> = drop n (butlast ?l) @ [last ?l]"
      using lt by simp
    finally have "size_keeping ?c1 n = size_keeping c n"
      by (simp add: size_keeping_def l1 size_delete_last)
    with ih show ?thesis by simp
  qed
qed

lemma map_key_remove1:
  "distinct (map key l) \<Longrightarrow> it \<in> set l \<Longrightarrow> map key (remove1 it l) = removeAll (key it) (map key l)"
proof (induction l)
  case Nil
  then show ?case by simp
next
  case (Cons x l)
  show ?case
  proof (cases "x = it")
    case True
    with Cons.prems have "key it \<notin> set (map key l)" by auto
    with True show ?thesis by simp
  next
    case False
    with Cons.prems have "key x \<noteq> key it" by auto
    with False Cons show ?thesis by auto
  qed
qed

lemma lru_keys_set_item:
  assumes "cache_wf c"
  shows "lru_keys (set_item c k e) = k # removeAll k (lru_keys c)"
proof (cases "items c k")
  case None
  then have "k \<notin> set (lru_keys c)" using assms wf_items_None by (simp add: lru_keys_def)
  with None show ?thesis
    by (simp add: set_item_def PushFront_def lru_keys_def Let_def)
next
  case (Some it)
  from wf_items_mem [OF assms Some] have mem: "it \<in> set (lru c)" and k: "key it = k" by simp_all
  from assms have d: "distinct (map key (lru c))" by (simp add: cache_wf_def)
  from Some map_key_remove1 [OF d mem] k show ?thesis
    by (simp add: set_item_def lru_keys_def Let_def)
qed

lemma lru_keys_Get_hit:
  assumes "cache_wf c" and "snd (memoryCache_Get c now k) \<noteq> None"
  shows "lru_keys (fst (memoryCache_Get c now k)) = k # removeAll k (lru_keys c)"
proof (cases "items c k")
  case None
  with assms(2) show ?thesis by (simp add: memoryCache_Get_def)
next
  case (Some it)
  from wf_items_mem [OF assms(1) Some] have mem: "it \<in> set (lru c)" and k: "key it = k" by simp_all
  from assms have d: "distinct (map key (lru c))" by (simp add: cache_wf_def)
  from assms(2) Some have "\<not> ExpiresAt (entry it) < now"
    by (auto simp: memoryCache_Get_def split: if_splits)
  with Some mem map_key_remove1 [OF d mem] k show ?thesis
    by (simp add: memoryCache_Get_def MoveToFront_def lru_keys_def)
qed

lemma lru_keys_deleteElement:
  assumes "cache_wf c" and "items c k = Some it"
  shows "lru_keys (deleteElement c it) = removeAll k (lru_keys c)"
proof -
  from wf_items_mem [OF assms] have mem: "it \<in> set (lru c)" and k: "key it = k" by simp_all
  from assms have d: "distinct (map key (lru c))" by (simp add: cache_wf_def)
  from map_key_remove1 [OF d mem] k show ?thesis
    by (simp add: deleteElement_def Remove_def lru_keys_def)
qed

lemma lru_keys_Get_miss:
  assumes "cache_wf c" and "snd (memoryCache_Get c now k) = None"
  shows "lru_keys (fst (memoryCache_Get c now k)) = removeAll k (lru_keys c)"
proof (cases "items c k")
  case None
  then have "k \<notin> set (lru_keys c)" using assms wf_items_None by (simp add: lru_keys_def)
  with None show ?thesis by (simp add: memoryCache_Get_def)
next
  case (Some it)
  with assms(2) have "ExpiresAt (entry it) < now"
    by (auto simp: memoryCache_Get_def split: if_splits)
  with Some lru_keys_deleteElement [OF assms(1) Some] show ?thesis
    by (simp add: memoryCache_Get_def)
qed

lemma lru_keys_Delete:
  assumes "cache_wf c"
  shows "lru_keys (memoryCache_Delete c k) = removeAll k (lru_keys c)"
proof (cases "items c k")
  case None
  then have "k \<notin> set (lru_keys c)" using assms wf_items_None by (simp add: lru_keys_def)
  with None show ?thesis by (simp add: memoryCache_Delete_def)
next
  case (Some it)
  with lru_keys_deleteElement [OF assms Some] show ?thesis
    by (simp add: memoryCache_Delete_def)
qed

lemma cache_wf_set_item: "cache_wf c \<Longrightarrow> cache_wf (set_item c k e)"
proof (cases "items c k")
  case None
  assume wf: "cache_wf c"
  then have "k \<notin> key ` set (lru c)" using None by (simp add: wf_items_None)
  with wf None show ?thesis
    by (auto simp: cache_wf_def set_item_def PushFront_def Let_def)
next
  case (Some it)
  assume wf: "cache_wf c"
  from wf_items_mem [OF wf Some] have mem: "it \<in> set (lru c)" and k: "key it = k" by simp_all
  from wf have d: "distinct (map key (lru c))" by (simp add: cache_wf_def)
  have nk: "k \<notin> key ` set (remove1 it (lru c))"
    using key_notin_remove1 [OF d mem] k by simp
  have m: "map_of (map (\<lambda>i. (key i, i)) (remove1 it (lru c))) = (items c)(k := None)"
    using map_of_key_remove1 [OF d mem] wf k by (simp add: cache_wf_def)
  show ?thesis
    using Some nk m k distinct_key_remove1 [OF d, of it]
    by (simp add: cache_wf_def set_item_def Let_def)
qed

lemma lru_keys_Set:
  assumes "cache_wf c"
  shows "lru_keys (memoryCache_Set c k e)
         = take (length (lru_keys (memoryCache_Set c k e))) (k # removeAll k (lru_keys c))"
proof -
  have "cache_wf (set_item c k e)"
    using assms by (rule cache_wf_set_item)
  from evict_prefix [OF this] lru_keys_set_item [OF assms, of k e] show ?thesis
    by (simp add: memoryCache_Set_def lru_keys_def) (metis take_map)
qed

lemma more_recent_front: "a \<noteq> b \<Longrightarrow> more_recent a b (a # ks)"
  by (simp add: more_recent_def)

lemma takeWhile_removeAll:
  "k \<noteq> b \<Longrightarrow> takeWhile (\<lambda>x. x \<noteq> b) (removeAll k ks) = removeAll k (takeWhile (\<lambda>x. x \<noteq> b) ks)"
  by (induction ks) auto

lemma more_recent_removeAll:
  "more_recent a b ks \<Longrightarrow> k \<noteq> a \<Longrightarrow> k \<noteq> b \<Longrightarrow> more_recent a b (removeAll k ks)"
  by (simp add: more_recent_def takeWhile_removeAll)

lemma more_recent_to_front:
  "more_recent a b ks \<Longrightarrow> k \<noteq> b \<Longrightarrow> more_recent a b (k # removeAll k ks)"
  by (cases "k = a") (simp_all add: more_recent_def takeWhile_removeAll)

lemma takeWhile_take_mem:
  "b \<in> set (take n ks) \<Longrightarrow> takeWhile (\<lambda>x. x \<noteq> b) (take n ks) = takeWhile (\<lambda>x. x \<noteq> b) ks"
proof (induction ks arbitrary: n)
  case Nil
  then show ?case by simp
next
  case (Cons x ks)
  then show ?case by (cases n) auto
qed

lemma more_recent_take:
  "more_recent a b ks \<Longrightarrow> b \<in> set (take n ks) \<Longrightarrow> more_recent a b (take n ks)"
  by (simp add: more_recent_def takeWhile_take_mem)

lemma more_recent_mem: "more_recent a b ks \<Longrightarrow> a \<in> set ks"
  by (auto simp: more_recent_def dest: set_takeWhileD)

lemma lru_order_step:
  assumes wf: "cache_wf c" and ord: "lru_order a b c" and lv: "leaves a b op"
  shows "lru_order a b (cache_step c op)"
proof (cases op)
  case (OpGet k now)
  with lv have ka: "k \<noteq> a" and kb: "k \<noteq> b" by simp_all
  show ?thesis
  proof (cases "snd (memoryCache_Get c now k)")
    case None
    with ord ka kb OpGet lru_keys_Get_miss [OF wf None] show ?thesis
      by (auto simp: lru_order_def more_recent_removeAll)
  next
    case (Some e)
    then have "snd (memoryCache_Get c now k) \<noteq> None" by simp
    from lru_keys_Get_hit [OF wf this] ord ka kb OpGet show ?thesis
      by (auto simp: lru_order_def more_recent_to_front)
  qed
next
  case (OpSet k e)
  with lv have kb: "k \<noteq> b" by simp
  let ?pre = "k # removeAll k (lru_keys c)"
  let ?n = "length (lru_keys (memoryCache_Set c k e))"
  have eq: "lru_keys (memoryCache_Set c k e) = take ?n ?pre"
    by (rule lru_keys_Set [OF wf])
  show ?thesis unfolding lru_order_def
  proof
    assume "b \<in> set (lru_keys (cache_step c op))"
    then have b: "b \<in> set (take ?n ?pre)" using OpSet eq by simp
    then have "b \<in> set ?pre" by (rule in_set_takeD)
    with kb have "b \<in> set (lru_keys c)" by simp
    with ord have "more_recent a b (lru_keys c)" by (simp add: lru_order_def)
    then have "more_recent a b ?pre" using kb by (rule more_recent_to_front)
    then have "more_recent a b (take ?n ?pre)" using b by (rule more_recent_take)
    then show "more_recent a b (lru_keys (cache_step c op))" using OpSet eq by simp
  qed
next
  case (OpDelete k)
  with lv have ka: "k \<noteq> a" by simp
  with ord OpDelete lru_keys_Delete [OF wf, of k] show ?thesis
    by (cases "k = b") (auto simp: lru_order_def more_recent_removeAll)
next
  case OpClear
  then show ?thesis by (simp add: lru_order_def lru_keys_def memoryCache_Clear_def)
qed

lemma cache_inv_wf: "cache_inv c \<Longrightarrow> cache_wf c"
  by (simp add: cache_inv_def)

lemma lru_order_run:
  "cache_inv c \<Longrightarrow> lru_order a b c \<Longrightarrow> \<forall>op \<in> set ops. leaves a b op \<Longrightarrow>
   lru_order a b (cache_run c ops)"
  unfolding cache_run_def
  by (induction ops arbitrary: c) (simp_all add: lru_order_step cache_inv_step cache_inv_wf)

lemma cache_inv_reach: "cache_inv (cache_run (NewMemoryCache m ttl) ops)"
  by (rule cache_inv_run [OF cache_inv_New])

lemma maxSize_set_item [simp]: "maxSize (set_item c k e) = maxSize c"
  by (simp add: set_item_def Let_def split: option.splits)

lemma items_Get_miss:
  assumes "cache_wf c" and "snd (memoryCache_Get c now k) = None"
  shows "items (fst (memoryCache_Get c now k)) = (items c)(k := None)"
proof (cases "items c k")
  case None
  then show ?thesis by (simp add: memoryCache_Get_def fun_upd_idem)
next
  case (Some it)
  with assms have "ExpiresAt (entry it) < now"
    by (auto simp: memoryCache_Get_def split: if_splits)
  with Some wf_items_mem [OF assms(1) Some] show ?thesis
    by (simp add: memoryCache_Get_def deleteElement_def)
qed

lemmas cache_eval_defs =
  cache_run_def memoryCache_Get_def memoryCache_Set_def memoryCache_Delete_def
  memoryCache_Clear_def memoryCache_Len_def memoryCache_Size_def set_item_def
  deleteElement_def NewMemoryCache_def test_entry_def PushFront_def MoveToFront_def
  Remove_def Back_def evict.simps Let_def lru_keys_def

subsection \<open>C1: size accounting\<close>

lemma exact_total_nonneg: "sizes_nonneg c \<Longrightarrow> 0 \<le> exact_total_size c"
  by (auto simp: sizes_nonneg_def exact_total_size_def list_all_iff intro!: sum_list_nonneg)

lemma sint_size_exact:
  assumes "cache_inv c" and "sizes_nonneg c" and "exact_total_size c < 2 ^ 63"
  shows "sint (size_c c) = exact_total_size c"
proof -
  from assms(2) have "0 \<le> exact_total_size c" by (rule exact_total_nonneg)
  then have "- (2 ^ 63) \<le> sum_list (map sint (map Size (entries c)))"
    by (simp add: exact_total_size_def comp_def)
  moreover from assms(3) have "sum_list (map sint (map Size (entries c))) < 2 ^ 63"
    by (simp add: exact_total_size_def comp_def)
  ultimately have "sint (sum_list (map Size (entries c))) = sum_list (map sint (map Size (entries c)))"
    by (rule sint_sum_list_exact)
  with assms(1) show ?thesis
    by (simp add: cache_inv_def total_size_def exact_total_size_def comp_def)
qed

lemma exact_total_deleteElement:
  "it \<in> set (lru c) \<Longrightarrow>
   exact_total_size (deleteElement c it) = exact_total_size c - sint (Size (entry it))"
  using sum_list_map_remove1 [of it "lru c" "\<lambda>i. sint (Size (entry i))"]
  by (simp add: exact_total_size_def entries_def deleteElement_def Remove_def comp_def)

lemma sizes_nonneg_deleteElement: "sizes_nonneg c \<Longrightarrow> sizes_nonneg (deleteElement c it)"
  by (auto simp: sizes_nonneg_def entries_def deleteElement_def Remove_def list_all_iff
      dest: notin_set_remove1)

lemma sizes_nonneg_mem: "sizes_nonneg c \<Longrightarrow> it \<in> set (lru c) \<Longrightarrow> 0 \<le> sint (Size (entry it))"
  by (auto simp: sizes_nonneg_def entries_def list_all_iff)

text \<open>Deleting an item keeps the bound of the exact sum.\<close>

lemma exact_le_deleteElement:
  assumes "sizes_nonneg c" and "it \<in> set (lru c)"
  shows "exact_total_size (deleteElement c it) \<le> exact_total_size c"
  using exact_total_deleteElement [OF assms(2)] sizes_nonneg_mem [OF assms] by simp

lemma cache_exact_deleteElement:
  "cache_exact c \<Longrightarrow> it \<in> set (lru c) \<Longrightarrow> cache_exact (deleteElement c it)"
  using exact_le_deleteElement [of c it]
  by (simp add: cache_exact_def cache_inv_deleteElement sizes_nonneg_deleteElement)

lemma cache_exact_Get: "cache_exact c \<Longrightarrow> cache_exact (fst (memoryCache_Get c now k))"
proof (cases "items c k")
  case None
  assume "cache_exact c"
  with None show ?thesis by (simp add: memoryCache_Get_def)
next
  case (Some it)
  assume ex: "cache_exact c"
  then have inv: "cache_inv c" by (simp add: cache_exact_def)
  from wf_items_mem [OF cache_inv_wf [OF inv] Some] have mem: "it \<in> set (lru c)" by simp
  show ?thesis
  proof (cases "ExpiresAt (entry it) < now")
    case True
    with Some cache_exact_deleteElement [OF ex mem] show ?thesis
      by (simp add: memoryCache_Get_def)
  next
    case False
    have "exact_total_size (c\<lparr>lru := it # remove1 it (lru c)\<rparr>) = exact_total_size c"
      using sum_list_map_remove1 [OF mem, of "\<lambda>i. sint (Size (entry i))"]
      by (simp add: exact_total_size_def entries_def comp_def)
    moreover have "sizes_nonneg (c\<lparr>lru := it # remove1 it (lru c)\<rparr>)"
      using ex mem by (auto simp: cache_exact_def sizes_nonneg_def entries_def list_all_iff
          dest: notin_set_remove1)
    moreover have "cache_inv (fst (memoryCache_Get c now k))"
      using inv by (rule cache_inv_Get)
    ultimately show ?thesis using False Some mem ex
      by (simp add: memoryCache_Get_def MoveToFront_def cache_exact_def)
  qed
qed

lemma cache_exact_Delete: "cache_exact c \<Longrightarrow> cache_exact (memoryCache_Delete c k)"
proof (cases "items c k")
  case None
  assume "cache_exact c"
  with None show ?thesis by (simp add: memoryCache_Delete_def)
next
  case (Some it)
  assume ex: "cache_exact c"
  then have "it \<in> set (lru c)"
    using Some wf_items_mem by (auto simp: cache_exact_def cache_inv_def)
  with ex Some show ?thesis by (simp add: memoryCache_Delete_def cache_exact_deleteElement)
qed

lemma cache_exact_Clear: "0 \<le> sint (maxSize c) \<Longrightarrow> cache_exact (memoryCache_Clear c)"
  using cache_inv_Clear [of c]
  by (simp add: cache_exact_def sizes_nonneg_def exact_total_size_def entries_def
      memoryCache_Clear_def)

text \<open>The first half of Set: the exact sum grows by at most the new size.\<close>

lemma set_item_exact:
  assumes "cache_inv c" and "sizes_nonneg c" and "0 \<le> sint (Size e)"
  shows "sizes_nonneg (set_item c k e) \<and>
         exact_total_size (set_item c k e) \<le> exact_total_size c + sint (Size e)"
proof (cases "items c k")
  case None
  with assms show ?thesis
    by (simp add: set_item_def Let_def PushFront_def sizes_nonneg_def exact_total_size_def
        entries_def)
next
  case (Some it)
  from wf_items_mem [OF cache_inv_wf [OF assms(1)] Some] have mem: "it \<in> set (lru c)" by simp
  have "sum_list (map (\<lambda>i. sint (Size (entry i))) (lru c))
        = sint (Size (entry it)) + sum_list (map (\<lambda>i. sint (Size (entry i))) (remove1 it (lru c)))"
    by (rule sum_list_map_remove1 [OF mem])
  moreover have "0 \<le> sint (Size (entry it))"
    using assms(2) mem by (rule sizes_nonneg_mem)
  moreover have "list_all (\<lambda>e. 0 \<le> sint (Size e)) (map entry (remove1 it (lru c)))"
    using assms(2) by (auto simp: sizes_nonneg_def entries_def list_all_iff dest: notin_set_remove1)
  ultimately show ?thesis using Some assms(3)
    by (simp add: set_item_def Let_def sizes_nonneg_def exact_total_size_def entries_def comp_def)
qed

text \<open>The loop of Set on exact sums: it ends within the capacity.\<close>

lemma evict_exact:
  assumes "cache_inv c" and "sizes_nonneg c" and "exact_total_size c < 2 ^ 63"
    and "0 \<le> sint (maxSize c)"
  shows "cache_exact (evict c)"
  using assms
proof (induction c rule: evict_induct)
  case (stop c)
  have sz: "sint (size_c c) = exact_total_size c"
    using stop.prems(1-3) by (rule sint_size_exact)
  have "exact_total_size c \<le> sint (maxSize c)"
  proof (cases "lru c = []")
    case True
    with stop.prems(4) show ?thesis by (simp add: exact_total_size_def entries_def)
  next
    case False
    with stop.hyps sz show ?thesis by simp
  qed
  with stop show ?case by (simp add: evict_stop cache_exact_def)
next
  case (step c)
  let ?it = "last (lru c)"
  from step.hyps(2) have mem: "?it \<in> set (lru c)" by simp
  have "exact_total_size (deleteElement c ?it) \<le> exact_total_size c"
    using step.prems(2) mem by (rule exact_le_deleteElement)
  with step.prems(3) have "exact_total_size (deleteElement c ?it) < 2 ^ 63" by simp
  with step mem show ?case
    by (simp add: evict_step cache_inv_deleteElement sizes_nonneg_deleteElement)
qed

lemma cache_exact_Set:
  assumes "cache_exact c" and "0 \<le> sint (maxSize c)" and "size_fits (maxSize c) (OpSet k e)"
  shows "cache_exact (memoryCache_Set c k e)"
proof -
  from assms(1) have inv: "cache_inv c" and nn: "sizes_nonneg c"
    and le: "exact_total_size c \<le> sint (maxSize c)"
    by (simp_all add: cache_exact_def)
  from assms(3) have e0: "0 \<le> sint (Size e)" and fit: "sint (Size e) + sint (maxSize c) < 2 ^ 63"
    by simp_all
  from set_item_exact [OF inv nn e0, of k] le fit
  have "sizes_nonneg (set_item c k e)" and "exact_total_size (set_item c k e) < 2 ^ 63"
    by simp_all
  with cache_inv_set_item [OF inv, of k e] assms(2) show ?thesis
    by (simp add: memoryCache_Set_def evict_exact)
qed

lemma cache_exact_step:
  "cache_exact c \<Longrightarrow> 0 \<le> sint (maxSize c) \<Longrightarrow> size_fits (maxSize c) op \<Longrightarrow>
   cache_exact (cache_step c op)"
  by (cases op) (simp_all add: cache_exact_Get cache_exact_Set cache_exact_Delete cache_exact_Clear)

lemma cache_exact_run:
  "cache_exact c \<Longrightarrow> 0 \<le> sint (maxSize c) \<Longrightarrow> \<forall>op \<in> set ops. size_fits (maxSize c) op \<Longrightarrow>
   cache_exact (cache_run c ops)"
  unfolding cache_run_def
  by (induction ops arbitrary: c) (simp_all add: cache_exact_step)

lemma cache_exact_New: "0 \<le> sint m \<Longrightarrow> cache_exact (NewMemoryCache m ttl)"
  using cache_inv_New [of m ttl]
  by (simp add: cache_exact_def sizes_nonneg_def exact_total_size_def entries_def NewMemoryCache_def)

text \<open>
  C1. On a new cache whose \<^verbatim>\<open>maxSize\<close> is not negative (the configuration admits
  positive sizes only), after every sequence of \<^verbatim>\<open>Get\<close>, \<^verbatim>\<open>Set\<close>, \<^verbatim>\<open>Delete\<close> and
  \<^verbatim>\<open>Clear\<close> calls, evictions and lazy expiry included: the map and the list hold the
  same items; the recorded size is the sum of the \<^verbatim>\<open>Size\<close> fields of the entries
  present; and right after every \<^verbatim>\<open>Set\<close> the recorded size is at most \<^verbatim>\<open>maxSize\<close>. The
  sum is first the sum in \<^verbatim>\<open>int64\<close> arithmetic, whatever the sizes; when every stored
  size is non-negative and fits (\<open>size_fits\<close>), it is the exact integer sum, and the
  recorded size is at most \<^verbatim>\<open>maxSize\<close> after every call.
\<close>

theorem cache_size_accounting:
  fixes m ttl :: int64 and ops :: "cache_op list" and k :: string and e :: Entry
  defines "c \<equiv> cache_run (NewMemoryCache m ttl) ops"
  assumes "0 \<le> sint m"
  shows "cache_wf c \<and>
         memoryCache_Size c = total_size c \<and>
         sint (memoryCache_Size (cache_run (NewMemoryCache m ttl) (ops @ [OpSet k e]))) \<le> sint m \<and>
         ((\<forall>op \<in> set ops. size_fits m op) \<longrightarrow>
            sint (memoryCache_Size c) = exact_total_size c \<and>
            sint (memoryCache_Size c) \<le> sint m)"
proof -
  have inv: "cache_inv c"
    unfolding c_def by (rule cache_inv_run [OF cache_inv_New])
  then have wf: "cache_wf c" and sz: "size_c c = total_size c"
    by (simp_all add: cache_inv_def)
  have mx: "maxSize c = m"
    by (simp add: c_def NewMemoryCache_def)
  have fit: "sint (memoryCache_Size (cache_run (NewMemoryCache m ttl) (ops @ [OpSet k e]))) \<le> sint m"
    using Set_fits [OF inv, of k e] assms(2) mx
    by (simp add: cache_run_snoc memoryCache_Size_def c_def [symmetric])
  have ex: "sint (memoryCache_Size c) = exact_total_size c \<and> sint (memoryCache_Size c) \<le> sint m"
    if "\<forall>op \<in> set ops. size_fits m op"
  proof -
    have m0: "maxSize (NewMemoryCache m ttl) = m" by (simp add: NewMemoryCache_def)
    have "cache_exact c"
      unfolding c_def using cache_exact_New [OF assms(2), of ttl] assms(2) that
      by (intro cache_exact_run) (simp_all add: m0)
    then have nn: "sizes_nonneg c" and le: "exact_total_size c \<le> sint m"
      by (simp_all add: cache_exact_def mx)
    have "sint m < 2 ^ 63" using sint_lt [of m] by simp
    with le have "exact_total_size c < 2 ^ 63" by simp
    from sint_size_exact [OF inv nn this] le show ?thesis
      by (simp add: memoryCache_Size_def)
  qed
  from sz have sz': "memoryCache_Size c = total_size c"
    by (simp add: memoryCache_Size_def)
  from wf sz' fit ex show ?thesis by blast
qed

text \<open>
  The theorem at a cache of capacity 50: entries of sizes 30 and 9, a \<^verbatim>\<open>Get\<close>, a third
  entry of size 30 that evicts, a \<^verbatim>\<open>Delete\<close>; then an entry larger than the capacity.
\<close>

theorem cache_size_accounting_witness:
  "0 \<le> sint (50 :: int64) \<and>
   list_all (size_fits 50) size_test_ops \<and>
   lru_keys (cache_run (NewMemoryCache 50 0) size_test_ops) = [''c''] \<and>
   sint (memoryCache_Size (cache_run (NewMemoryCache 50 0) size_test_ops)) = 30 \<and>
   exact_total_size (cache_run (NewMemoryCache 50 0) size_test_ops) = 30 \<and>
   sint (memoryCache_Size (cache_run (NewMemoryCache 50 0)
      (size_test_ops @ [OpSet ''d'' (test_entry 60 0)]))) \<le> 50"
proof -
  have m: "0 \<le> sint (50 :: int64)" by simp
  have f: "list_all (size_fits 50) size_test_ops"
    by (simp add: size_test_ops_def test_entry_def)
  then have f': "\<forall>op \<in> set size_test_ops. size_fits 50 op" by (simp add: list_all_iff)
  have ks: "lru_keys (cache_run (NewMemoryCache 50 0) size_test_ops) = [''c'']"
    and x: "exact_total_size (cache_run (NewMemoryCache 50 0) size_test_ops) = 30"
    by (simp_all add: size_test_ops_def exact_total_size_def entries_def cache_eval_defs)
  note t = cache_size_accounting [OF m, of 0 size_test_ops "''d''" "test_entry 60 0"]
  from t [THEN conjunct2, THEN conjunct2, THEN conjunct2] f' x
  have s: "sint (memoryCache_Size (cache_run (NewMemoryCache 50 0) size_test_ops)) = 30"
    by simp
  from t [THEN conjunct2, THEN conjunct2, THEN conjunct1] have b: "sint (memoryCache_Size (cache_run (NewMemoryCache 50 0)
      (size_test_ops @ [OpSet ''d'' (test_entry 60 0)]))) \<le> 50"
    by simp
  from m f ks s x b show ?thesis by simp
qed

subsection \<open>C2: expiry on Get\<close>

text \<open>
  C2. On a cache built by the methods, \<^verbatim>\<open>Get(key)\<close> at the time \<open>now\<close> returns the stored
  entry exactly when the key is present and \<open>now \<le> ExpiresAt\<close> (the source tests
  \<^verbatim>\<open>time.Now().After(ExpiresAt)\<close>, so the entry is still returned at the instant
  \<open>now = ExpiresAt\<close>). When it returns nothing, the key is absent afterwards: an
  expired entry is removed from the map and from the list. When it returns the entry,
  the map and the size are unchanged and the key moves to the front of the list.
\<close>

theorem cache_get_ttl:
  fixes m ttl :: int64 and ops :: "cache_op list" and k :: string and now :: time
  defines "c \<equiv> cache_run (NewMemoryCache m ttl) ops"
  defines "r \<equiv> memoryCache_Get c now k"
  shows "snd r = (case items c k of
                    None \<Rightarrow> None
                  | Some item \<Rightarrow> if now \<le> ExpiresAt (entry item) then Some (entry item) else None) \<and>
         (snd r = None \<longrightarrow>
            items (fst r) = (items c)(k := None) \<and> lru_keys (fst r) = removeAll k (lru_keys c)) \<and>
         (snd r \<noteq> None \<longrightarrow>
            items (fst r) = items c \<and> lru_keys (fst r) = k # removeAll k (lru_keys c) \<and>
            size_c (fst r) = size_c c)"
proof -
  have wf: "cache_wf c"
    unfolding c_def by (rule cache_inv_wf [OF cache_inv_reach])
  have 1: "snd r = (case items c k of
                    None \<Rightarrow> None
                  | Some item \<Rightarrow> if now \<le> ExpiresAt (entry item) then Some (entry item) else None)"
    by (auto simp: r_def memoryCache_Get_def split: option.splits)
  have 2: "items (fst r) = (items c)(k := None) \<and> lru_keys (fst r) = removeAll k (lru_keys c)"
    if "snd r = None"
    using that lru_keys_Get_miss [OF wf, of now k] items_Get_miss [OF wf, of now k]
    by (simp add: r_def)
  have 3: "items (fst r) = items c \<and> lru_keys (fst r) = k # removeAll k (lru_keys c) \<and>
            size_c (fst r) = size_c c"
    if "snd r \<noteq> None"
  proof -
    from that have "items (fst r) = items c \<and> size_c (fst r) = size_c c"
      by (auto simp: r_def memoryCache_Get_def split: option.splits if_splits)
    with that lru_keys_Get_hit [OF wf, of now k] show ?thesis by (simp add: r_def)
  qed
  from 1 2 3 show ?thesis by blast
qed

text \<open>
  The theorem on a cache holding one entry that expires at time 5: a hit at time 5, a
  miss with removal at time 6.
\<close>

theorem cache_get_ttl_witness:
  "snd (memoryCache_Get (cache_run (NewMemoryCache 100 0) [OpSet ''k'' (test_entry 9 5)]) 5 ''k'')
     = Some (test_entry 9 5) \<and>
   lru_keys (fst (memoryCache_Get (cache_run (NewMemoryCache 100 0) [OpSet ''k'' (test_entry 9 5)]) 5 ''k''))
     = [''k''] \<and>
   snd (memoryCache_Get (cache_run (NewMemoryCache 100 0) [OpSet ''k'' (test_entry 9 5)]) 6 ''k'')
     = None \<and>
   lru_keys (fst (memoryCache_Get (cache_run (NewMemoryCache 100 0) [OpSet ''k'' (test_entry 9 5)]) 6 ''k''))
     = []"
proof -
  let ?c = "cache_run (NewMemoryCache 100 0) [OpSet ''k'' (test_entry 9 5)]"
  have i: "items ?c ''k'' = Some \<lparr>key = ''k'', entry = test_entry 9 5\<rparr>"
    and l: "lru_keys ?c = [''k'']"
    by (simp_all add: cache_run_def memoryCache_Set_def set_item_def lru_keys_def
      NewMemoryCache_def test_entry_def PushFront_def evict.simps Let_def)
  have e: "ExpiresAt (test_entry 9 5) = 5" by (simp add: test_entry_def)
  note hit = cache_get_ttl [of 100 0 "[OpSet ''k'' (test_entry 9 5)]" 5 "''k''"]
  note miss = cache_get_ttl [of 100 0 "[OpSet ''k'' (test_entry 9 5)]" 6 "''k''"]
  from hit i e have h1: "snd (memoryCache_Get ?c 5 ''k'') = Some (test_entry 9 5)"
    by simp
  with hit l have h2: "lru_keys (fst (memoryCache_Get ?c 5 ''k'')) = [''k'']"
    by simp
  from miss i e have m1: "snd (memoryCache_Get ?c 6 ''k'') = None"
    by simp
  with miss l have m2: "lru_keys (fst (memoryCache_Get ?c 6 ''k'')) = []"
    by simp
  from h1 h2 m1 m2 show ?thesis by simp
qed

text \<open>
  The claim as stated makes \<open>now = ExpiresAt\<close> a miss. The code returns the entry there.
\<close>

theorem cache_get_at_expiry_counterexample:
  "ExpiresAt (test_entry 9 5) \<le> 5 \<and>
   snd (memoryCache_Get (cache_run (NewMemoryCache 100 0) [OpSet ''k'' (test_entry 9 5)]) 5 ''k'')
     = Some (test_entry 9 5)"
  by (simp add: cache_run_def memoryCache_Get_def memoryCache_Set_def set_item_def
      NewMemoryCache_def test_entry_def PushFront_def evict.simps Let_def)

subsection \<open>C3: the order of eviction\<close>

text \<open>
  C3. On a cache built by the methods: a \<^verbatim>\<open>Get\<close> that returns an entry moves its key to
  the front of the list and keeps the order of the others; so does the first half of
  \<^verbatim>\<open>Set\<close>. The loop of \<^verbatim>\<open>Set\<close> then removes items from the back only: what is left is a
  prefix of the list, it stops with the size within \<^verbatim>\<open>maxSize\<close> or the list empty (the
  new item evicted too), and every item it removed was removed while the size was above
  \<^verbatim>\<open>maxSize\<close>. After a \<^verbatim>\<open>Get\<close> of \<open>a\<close> that returns an entry, \<open>a\<close> is more recent than
  every other key \<open>b\<close>; and while \<open>a\<close> is more recent than \<open>b\<close>, after any calls that do
  not use \<open>b\<close> and do not delete \<open>a\<close>, if \<open>b\<close> is still in the cache then so is \<open>a\<close>, still
  more recent: \<open>a\<close> is evicted no earlier than \<open>b\<close>.
\<close>

theorem lru_eviction_order:
  fixes m ttl :: int64 and ops ops' :: "cache_op list" and k a b :: string
    and now :: time and e :: Entry
  defines "c \<equiv> cache_run (NewMemoryCache m ttl) ops"
  shows "(snd (memoryCache_Get c now k) \<noteq> None \<longrightarrow>
            lru_keys (fst (memoryCache_Get c now k)) = k # removeAll k (lru_keys c)) \<and>
         lru_keys (set_item c k e) = k # removeAll k (lru_keys c) \<and>
         lru (memoryCache_Set c k e)
           = take (memoryCache_Len (memoryCache_Set c k e)) (lru (set_item c k e)) \<and>
         (sint (size_c (memoryCache_Set c k e)) \<le> sint (maxSize c) \<or>
            lru (memoryCache_Set c k e) = []) \<and>
         (\<forall>n. memoryCache_Len (memoryCache_Set c k e) < n \<and> n \<le> length (lru (set_item c k e)) \<longrightarrow>
            sint (maxSize c) < sint (size_keeping (set_item c k e) n)) \<and>
         (snd (memoryCache_Get c now a) \<noteq> None \<and> a \<noteq> b \<longrightarrow>
            more_recent a b (lru_keys (fst (memoryCache_Get c now a)))) \<and>
         (more_recent a b (lru_keys c) \<and> (\<forall>op \<in> set ops'. leaves a b op) \<and>
            b \<in> set (lru_keys (cache_run c ops')) \<longrightarrow>
            a \<in> set (lru_keys (cache_run c ops')) \<and> more_recent a b (lru_keys (cache_run c ops')))"
proof -
  have inv: "cache_inv c"
    unfolding c_def by (rule cache_inv_reach)
  then have wf: "cache_wf c" by (rule cache_inv_wf)
  have wf': "cache_wf (set_item c k e)" using wf by (rule cache_wf_set_item)
  have 1: "lru_keys (fst (memoryCache_Get c now k)) = k # removeAll k (lru_keys c)"
    if "snd (memoryCache_Get c now k) \<noteq> None"
    using wf that by (rule lru_keys_Get_hit)
  have 2: "lru_keys (set_item c k e) = k # removeAll k (lru_keys c)"
    using wf by (rule lru_keys_set_item)
  have 3: "lru (memoryCache_Set c k e)
           = take (memoryCache_Len (memoryCache_Set c k e)) (lru (set_item c k e))"
    using evict_prefix [OF wf'] by (simp add: memoryCache_Set_def memoryCache_Len_def)
  have 4: "sint (size_c (memoryCache_Set c k e)) \<le> sint (maxSize c) \<or>
            lru (memoryCache_Set c k e) = []"
    using evict_fits [of "set_item c k e"] by (simp add: memoryCache_Set_def)
  have 5: "sint (maxSize c) < sint (size_keeping (set_item c k e) n)"
    if "memoryCache_Len (memoryCache_Set c k e) < n" "n \<le> length (lru (set_item c k e))" for n
    using evict_needed [OF wf', of n] that by (simp add: memoryCache_Set_def memoryCache_Len_def)
  have 6: "more_recent a b (lru_keys (fst (memoryCache_Get c now a)))"
    if "snd (memoryCache_Get c now a) \<noteq> None" "a \<noteq> b"
    using lru_keys_Get_hit [OF wf that(1)] that(2) by (simp add: more_recent_front)
  have 7: "a \<in> set (lru_keys (cache_run c ops')) \<and> more_recent a b (lru_keys (cache_run c ops'))"
    if "more_recent a b (lru_keys c)" "\<forall>op \<in> set ops'. leaves a b op"
      "b \<in> set (lru_keys (cache_run c ops'))"
  proof -
    from that(1) have "lru_order a b c" by (simp add: lru_order_def)
    from lru_order_run [OF inv this that(2)] that(3)
    have "more_recent a b (lru_keys (cache_run c ops'))" by (simp add: lru_order_def)
    then show ?thesis by (simp add: more_recent_mem)
  qed
  from 1 2 3 4 5 6 7 show ?thesis by blast
qed

text \<open>
  The theorem on a cache of capacity 50 after \<^verbatim>\<open>Set(a)\<close>, \<^verbatim>\<open>Set(b)\<close>, \<^verbatim>\<open>Get(a)\<close> with entries
  of size 20: a \<^verbatim>\<open>Set\<close> of a third entry of size 20 evicts \<open>b\<close>, not \<open>a\<close>.
\<close>

theorem lru_eviction_order_witness:
  "snd (memoryCache_Get (cache_run (NewMemoryCache 50 0) lru_test_ops) 0 ''b'') \<noteq> None \<and>
   lru_keys (fst (memoryCache_Get (cache_run (NewMemoryCache 50 0) lru_test_ops) 0 ''b'')) = [''b'', ''a''] \<and>
   lru_keys (memoryCache_Set (cache_run (NewMemoryCache 50 0) lru_test_ops) ''d'' (test_entry 20 0)) = [''d'', ''a''] \<and>
   sint (50 :: int64)
     < sint (size_keeping (set_item (cache_run (NewMemoryCache 50 0) lru_test_ops) ''d'' (test_entry 20 0)) 3) \<and>
   more_recent ''a'' ''b'' (lru_keys (cache_run (NewMemoryCache 50 0) lru_test_ops)) \<and>
   leaves ''a'' ''b'' (OpSet ''d'' (test_entry 5 0)) \<and>
   ''b'' \<in> set (lru_keys (cache_run (cache_run (NewMemoryCache 50 0) lru_test_ops) [OpSet ''d'' (test_entry 5 0)])) \<and>
   ''a'' \<in> set (lru_keys (cache_run (cache_run (NewMemoryCache 50 0) lru_test_ops) [OpSet ''d'' (test_entry 5 0)])) \<and>
   more_recent ''a'' ''b''
     (lru_keys (cache_run (cache_run (NewMemoryCache 50 0) lru_test_ops) [OpSet ''d'' (test_entry 5 0)]))"
proof -
  let ?c = "cache_run (NewMemoryCache 50 0) lru_test_ops"
  note t = lru_eviction_order [of 50 0 lru_test_ops 0 "''b''" "test_entry 20 0" "''a''" "''b''"
      "[OpSet ''d'' (test_entry 5 0)]"]
  note t' = lru_eviction_order [of 50 0 lru_test_ops 0 "''d''" "test_entry 20 0" "''a''" "''b''"
      "[OpSet ''d'' (test_entry 5 0)]"]
  have ks: "lru_keys ?c = [''a'', ''b'']"
    by (simp add: lru_test_ops_def cache_eval_defs)
  have hit: "snd (memoryCache_Get ?c 0 ''b'') \<noteq> None"
    by (simp add: lru_test_ops_def cache_eval_defs)
  have len: "memoryCache_Len (memoryCache_Set ?c ''d'' (test_entry 20 0)) < 3"
    and len': "3 \<le> length (lru (set_item ?c ''d'' (test_entry 20 0)))"
    and ks': "lru_keys (memoryCache_Set ?c ''d'' (test_entry 20 0)) = [''d'', ''a'']"
    by (simp_all add: lru_test_ops_def cache_eval_defs)
  have mx: "maxSize ?c = 50" by (simp add: NewMemoryCache_def)
  have mr: "more_recent ''a'' ''b'' (lru_keys ?c)"
    by (simp add: ks more_recent_def)
  have b: "''b'' \<in> set (lru_keys (cache_run ?c [OpSet ''d'' (test_entry 5 0)]))"
    by (simp add: lru_test_ops_def cache_eval_defs)
  from t hit ks have 1: "lru_keys (fst (memoryCache_Get ?c 0 ''b'')) = [''b'', ''a'']"
    by simp
  from t' len len' mx
  have 2: "sint (50 :: int64) < sint (size_keeping (set_item ?c ''d'' (test_entry 20 0)) 3)"
    by simp
  from t mr b
  have 3: "''a'' \<in> set (lru_keys (cache_run ?c [OpSet ''d'' (test_entry 5 0)])) \<and>
       more_recent ''a'' ''b'' (lru_keys (cache_run ?c [OpSet ''d'' (test_entry 5 0)]))"
    by simp
  from hit 1 ks' 2 mr b 3 show ?thesis by simp
qed

section \<open>Properties of the cache policy\<close>

lemmas string_eval =
  isUpper_def isLower_def isDigit_def toLower_def toUpper_def isSpace_def ToLower_def
  TrimSpace_def HasPrefix_def SplitN2_def IndexByte_def LastIndexByte_def digit_val_def
  digits_val_def Atoi_def validHeaderFieldByte_def CanonicalMIMEHeaderKey_def Header_Get_def
  Header_Set_def char_of_def bit_Suc_0_iff Let_def

subsection \<open>C8: IsCacheable\<close>

lemma directives_allow_iff: "directives_allow ds \<longleftrightarrow> \<not> (\<exists>d \<in> set ds. restrictive d)"
  by (induction ds) (auto simp: restrictive_def Let_def)

lemma restrictive_Nil: "\<not> restrictive []"
  by (simp add: restrictive_def TrimSpace_def ToLower_def)

text \<open>
  C8. \<^verbatim>\<open>IsCacheable\<close> is true exactly when the method is \<^verbatim>\<open>GET\<close> or \<^verbatim>\<open>HEAD\<close>, the status is
  below 400 or is 404, and no directive of the \<^verbatim>\<open>Cache-Control\<close> header (split at
  commas, compared in lower case and trimmed) is \<^verbatim>\<open>no-store\<close>, \<^verbatim>\<open>no-cache\<close> or
  \<^verbatim>\<open>private\<close>: false for any other method, false for a status from 500 on or from 400
  to 499 other than 404, false with a restrictive directive, true otherwise.
\<close>

theorem IsCacheable_decision:
  "IsCacheable r statusCode headers \<longleftrightarrow>
     (Method r = ''GET'' \<or> Method r = ''HEAD'') \<and>
     \<not> (statusCode \<ge> 500 \<or> (400 \<le> statusCode \<and> statusCode < 500 \<and> statusCode \<noteq> 404)) \<and>
     \<not> (\<exists>d \<in> set (Split (Header_Get headers ''Cache-Control'') CHR '',''). restrictive d)"
proof (cases "Header_Get headers ''Cache-Control'' = []")
  case True
  then show ?thesis
    by (auto simp: IsCacheable_def Let_def restrictive_Nil)
next
  case False
  then show ?thesis
    by (auto simp: IsCacheable_def Let_def directives_allow_iff)
qed

text \<open>
  The cases of \<^verbatim>\<open>TestIsCacheable\<close>, and a restrictive directive in upper case with
  spaces after another directive.
\<close>

theorem IsCacheable_decision_witness:
  "IsCacheable (method_request ''GET'') 200 (cache_control []) \<and>
   \<not> IsCacheable (method_request ''POST'') 200 (cache_control []) \<and>
   \<not> IsCacheable (method_request ''GET'') 500 (cache_control []) \<and>
   \<not> IsCacheable (method_request ''GET'') 200 (cache_control ''no-store'') \<and>
   \<not> IsCacheable (method_request ''GET'') 200 (cache_control ''public, No-Cache '')"
proof -
  have e: "Header_Get (cache_control []) ''Cache-Control'' = []"
    by (simp add: cache_control_def string_eval)
  have s: "Header_Get (cache_control ''no-store'') ''Cache-Control'' = ''no-store''"
    by (simp add: cache_control_def string_eval)
  have p: "Header_Get (cache_control ''public, No-Cache '') ''Cache-Control'' = ''public, No-Cache ''"
    by (simp add: cache_control_def string_eval)
  have r: "restrictive ''no-store''" "restrictive '' No-Cache ''"
    by (simp_all add: restrictive_def string_eval)
  show ?thesis
    using IsCacheable_decision [of "method_request ''GET''" 200 "cache_control []"]
      IsCacheable_decision [of "method_request ''POST''" 200 "cache_control []"]
      IsCacheable_decision [of "method_request ''GET''" 500 "cache_control []"]
      IsCacheable_decision [of "method_request ''GET''" 200 "cache_control ''no-store''"]
      IsCacheable_decision [of "method_request ''GET''" 200 "cache_control ''public, No-Cache ''"]
    by (simp add: e s p r restrictive_Nil method_request_def)
qed

subsection \<open>C10: a vary header with an empty value\<close>

lemma Header_Get_cong:
  "h1 (CanonicalMIMEHeaderKey k) = h2 (CanonicalMIMEHeaderKey k) \<Longrightarrow> Header_Get h1 k = Header_Get h2 k"
  by (simp add: Header_Get_def)

lemma vary_parts_cong:
  "(\<And>k. Header_Get (Header r1) k = Header_Get (Header r2) k) \<Longrightarrow>
   vary_parts r1 parts hs = vary_parts r2 parts hs"
  by (induction hs arbitrary: parts) (simp_all add: Let_def)

lemma Header_Get_empty_value:
  "Header_Get (h(n := None)) k = Header_Get (h(n \<mapsto> [] # vs)) k"
  by (simp add: Header_Get_def)

text \<open>
  C10. For every request, every header name \<open>n\<close> and every list of vary headers,
  \<^verbatim>\<open>CacheKey\<close> gives the same key whether the request has no header \<open>n\<close> or has it with
  the empty string as its first value: an empty value adds nothing to the key, as an
  absent header does.
\<close>

theorem CacheKey_empty_vary_value:
  "CacheKey md5hex (r\<lparr>Header := (Header r)(n := None)\<rparr>) varyHeaders
   = CacheKey md5hex (r\<lparr>Header := (Header r)(n \<mapsto> [] # vs)\<rparr>) varyHeaders"
proof -
  have "vary_parts (r\<lparr>Header := (Header r)(n := None)\<rparr>) parts varyHeaders
        = vary_parts (r\<lparr>Header := (Header r)(n \<mapsto> [] # vs)\<rparr>) parts varyHeaders" for parts
    by (rule vary_parts_cong) (simp add: Header_Get_empty_value)
  then show ?thesis by (simp add: CacheKey_def Let_def)
qed

subsection \<open>C7: ParseTTL\<close>

text \<open>
  C7. The code at two inputs where it leaves the claim. A negative \<^verbatim>\<open>max-age\<close> is read by
  \<^verbatim>\<open>strconv.Atoi\<close> and returned as a negative duration, where the claim lets only a
  non-negative value count and \<^verbatim>\<open>FuzzParseTTL\<close> requires a result that is not
  negative. Without a \<^verbatim>\<open>Cache-Control\<close> header the function returns the default before
  it looks at \<^verbatim>\<open>Expires\<close>, whatever date that header holds.
\<close>

theorem ParseTTL_failing_inputs:
  "sint (ParseTTL ParseTime now (Header_Set Map.empty ''Cache-Control'' ''max-age=-5'') defaultTTL')
     = - 5000000000 \<and>
   ParseTTL ParseTime now (Header_Set Map.empty ''Expires'' expires) defaultTTL' = defaultTTL'"
  by (simp add: ParseTTL_def Second_def string_eval)

section \<open>Properties of the key extractors\<close>

declare first_in_list.simps [simp del]

lemma first_in_list_from:
  "idx \<le> length xff \<Longrightarrow> CHR '','' \<notin> set (take idx xff) \<Longrightarrow>
   first_in_list xff idx = takeWhile (\<lambda>c. c \<noteq> CHR '','') xff"
proof (induction xff idx rule: first_in_list.induct)
  case (1 xff idx)
  show ?case
  proof (cases "idx < length xff")
    case False
    with "1.prems" have "take idx xff = xff" by simp
    with "1.prems" have "\<forall>c \<in> set xff. c \<noteq> CHR '',''" by auto
    then have tw: "takeWhile (\<lambda>c. c \<noteq> CHR '','') xff = xff" by simp
    have "first_in_list xff idx = xff"
      using False by (subst first_in_list.simps) simp
    with tw show ?thesis by (simp only:)
  next
    case True
    note lt = this
    show ?thesis
    proof (cases "xff ! idx = CHR '',''")
      case True
      have "xff = take idx xff @ xff ! idx # drop (Suc idx) xff"
        using lt by (simp add: id_take_nth_drop)
      then have "takeWhile (\<lambda>c. c \<noteq> CHR '','') xff
                 = takeWhile (\<lambda>c. c \<noteq> CHR '','') (take idx xff @ CHR '','' # drop (Suc idx) xff)"
        using True by simp
      also have "\<dots> = take idx xff"
      proof -
        have "\<And>x. x \<in> set (take idx xff) \<Longrightarrow> x \<noteq> CHR '',''"
          using "1.prems"(2) by auto
        then show ?thesis by (subst takeWhile_append2) simp_all
      qed
      finally have tw: "takeWhile (\<lambda>c. c \<noteq> CHR '','') xff = take idx xff" .
      have "first_in_list xff idx = take idx xff"
        using lt True by (subst first_in_list.simps) simp
      with tw show ?thesis by simp
    next
      case False
      have "take (Suc idx) xff = take idx xff @ [xff ! idx]"
        using lt by (simp add: take_Suc_conv_app_nth)
      with False "1.prems" have "CHR '','' \<notin> set (take (Suc idx) xff)" by auto
      with "1.IH" [OF lt False] lt have
        "first_in_list xff (Suc idx) = takeWhile (\<lambda>c. c \<noteq> CHR '','') xff" by simp
      moreover have "first_in_list xff idx = first_in_list xff (Suc idx)"
        using lt False by (subst first_in_list.simps) simp
      ultimately show ?thesis by simp
    qed
  qed
qed

lemma first_in_list_takeWhile: "first_in_list xff 0 = takeWhile (\<lambda>c. c \<noteq> CHR '','') xff"
  by (rule first_in_list_from) simp_all

lemma LastIndexByte_Some:
  assumes "LastIndexByte s c = Some i"
  shows "i < length s \<and> s ! i = c"
proof -
  let ?n = "length (takeWhile (\<lambda>x. x \<noteq> c) (rev s))"
  from assms have mem: "c \<in> set s" and i: "i = length s - 1 - ?n"
    by (auto simp: LastIndexByte_def split: if_splits)
  from mem have "takeWhile (\<lambda>x. x \<noteq> c) (rev s) \<noteq> rev s"
    by auto
  then have lt: "?n < length (rev s)"
    using length_takeWhile_le [of "\<lambda>x. x \<noteq> c" "rev s"]
    by (metis le_neq_implies_less takeWhile_eq_take take_all)
  then have "\<not> (rev s ! ?n \<noteq> c)" by (rule nth_length_takeWhile)
  moreover from lt have "rev s ! ?n = s ! (length s - Suc ?n)" by (simp add: rev_nth)
  ultimately show ?thesis using lt i by simp
qed

lemma IndexByte_Some:
  assumes "IndexByte s c = Some i"
  shows "i < length s \<and> s ! i = c"
proof -
  let ?n = "length (takeWhile (\<lambda>x. x \<noteq> c) s)"
  from assms have mem: "c \<in> set s" and i: "i = ?n"
    by (auto simp: IndexByte_def split: if_splits)
  from mem have "takeWhile (\<lambda>x. x \<noteq> c) s \<noteq> s"
    by auto
  then have lt: "?n < length s"
    using length_takeWhile_le [of "\<lambda>x. x \<noteq> c" s]
    by (metis le_neq_implies_less takeWhile_eq_take take_all)
  then have "\<not> (s ! ?n \<noteq> c)" by (rule nth_length_takeWhile)
  with lt i show ?thesis by simp
qed

lemma SplitHostPort_plain:
  "LastIndexByte hp CHR '':'' = Some i \<Longrightarrow> hd hp \<noteq> CHR ''['' \<Longrightarrow>
   SplitHostPort hp =
     (if CHR '':'' \<in> set (take i hp) then None
      else if CHR ''['' \<in> set hp then None
      else if CHR '']'' \<in> set hp then None
      else Some (take i hp, drop (i + 1) hp))"
  by (simp add: SplitHostPort_def Let_def)

lemma SplitHostPort_bracket:
  "LastIndexByte hp CHR '':'' = Some i \<Longrightarrow> hd hp = CHR ''['' \<Longrightarrow>
   IndexByte hp CHR '']'' = Some e \<Longrightarrow>
   SplitHostPort hp =
     (if e + 1 = length hp then None
      else if e + 1 = i
        then (if CHR ''['' \<in> set (drop 1 hp) then None
              else if CHR '']'' \<in> set (drop (e + 1) hp) then None
              else Some (take (e - 1) (drop 1 hp), drop (i + 1) hp))
      else None)"
  by (simp add: SplitHostPort_def Let_def)

lemma SplitHostPort_bracket_None:
  "LastIndexByte hp CHR '':'' = Some i \<Longrightarrow> hd hp = CHR ''['' \<Longrightarrow>
   IndexByte hp CHR '']'' = None \<Longrightarrow> SplitHostPort hp = None"
  by (simp add: SplitHostPort_def Let_def)

lemma SplitHostPort_no_colon: "CHR '':'' \<notin> set hostport \<Longrightarrow> SplitHostPort hostport = None"
  by (simp add: SplitHostPort_def LastIndexByte_def)

lemma SplitHostPort_Some:
  assumes "SplitHostPort hostport = Some (host, port)"
  shows "hostport = host @ '':'' @ port \<or> hostport = ''['' @ host @ '']:'' @ port"
proof -
  from assms obtain i where li: "LastIndexByte hostport CHR '':'' = Some i"
    by (cases "LastIndexByte hostport CHR '':''") (simp_all add: SplitHostPort_def)
  from LastIndexByte_Some [OF li] have i: "i < length hostport" and c: "hostport ! i = CHR '':''"
    by simp_all
  have split: "hostport = take i hostport @ CHR '':'' # drop (Suc i) hostport"
    using i c by (metis id_take_nth_drop)
  show ?thesis
  proof (cases "hd hostport = CHR ''[''")
    case False
    from assms SplitHostPort_plain [OF li False]
    have "host = take i hostport" and "port = drop (Suc i) hostport"
      by (simp_all split: if_splits)
    with split show ?thesis by simp
  next
    case True
    obtain e where ie: "IndexByte hostport CHR '']'' = Some e"
      using assms SplitHostPort_bracket_None [OF li True]
      by (cases "IndexByte hostport CHR '']''") simp_all
    from IndexByte_Some [OF ie] have e: "e < length hostport" and ce: "hostport ! e = CHR '']''"
      by simp_all
    from assms SplitHostPort_bracket [OF li True ie]
    have ei: "e + 1 = i" and h: "host = take (e - 1) (drop 1 hostport)"
      and p: "port = drop (Suc i) hostport"
      by (simp_all split: if_splits)
    from i have ne: "hostport \<noteq> []" by auto
    have e0: "e \<noteq> 0"
    proof
      assume "e = 0"
      with ce ne have "hd hostport = CHR '']''" by (cases hostport) auto
      with True show False by simp
    qed
    have 1: "take i hostport = take e hostport @ [CHR '']'']"
      using ei e ce by (metis Suc_eq_plus1 take_Suc_conv_app_nth)
    have 2: "take e hostport = CHR ''['' # take (e - 1) (drop 1 hostport)"
      using e0 ne True by (cases hostport; cases e) auto
    have "hostport = (CHR ''['' # host @ [CHR '']'']) @ CHR '':'' # port"
      using split 1 2 h p by simp
    then show ?thesis by simp
  qed
qed

subsection \<open>C9: IPKeyExtractor\<close>

text \<open>
  C9. With a non-empty \<^verbatim>\<open>X-Forwarded-For\<close> header the result is the text of its value
  before the first comma, as it stands (the whole value when it has no comma; white
  space is not trimmed); else, with a non-empty \<^verbatim>\<open>X-Real-IP\<close> header, that value; else
  the host of the peer address when \<^verbatim>\<open>net.SplitHostPort\<close> splits it, and the whole peer
  address otherwise. An address without a colon has no port and is returned whole; an
  address that splits is \<open>host:port\<close> or \<open>[host]:port\<close>.
\<close>

theorem IPKeyExtractor_result:
  "IPKeyExtractor r =
     (if Header_Get (Header r) ''X-Forwarded-For'' \<noteq> []
      then takeWhile (\<lambda>c. c \<noteq> CHR '','') (Header_Get (Header r) ''X-Forwarded-For'')
      else if Header_Get (Header r) ''X-Real-IP'' \<noteq> [] then Header_Get (Header r) ''X-Real-IP''
      else (case SplitHostPort (RemoteAddr r) of
              Some (host, port) \<Rightarrow> host
            | None \<Rightarrow> RemoteAddr r)) \<and>
   (CHR '':'' \<notin> set (RemoteAddr r) \<longrightarrow> SplitHostPort (RemoteAddr r) = None) \<and>
   (\<forall>host port. SplitHostPort (RemoteAddr r) = Some (host, port) \<longrightarrow>
      RemoteAddr r = host @ '':'' @ port \<or> RemoteAddr r = ''['' @ host @ '']:'' @ port)"
proof -
  have 1: "IPKeyExtractor r =
     (if Header_Get (Header r) ''X-Forwarded-For'' \<noteq> []
      then takeWhile (\<lambda>c. c \<noteq> CHR '','') (Header_Get (Header r) ''X-Forwarded-For'')
      else if Header_Get (Header r) ''X-Real-IP'' \<noteq> [] then Header_Get (Header r) ''X-Real-IP''
      else (case SplitHostPort (RemoteAddr r) of
              Some (host, port) \<Rightarrow> host
            | None \<Rightarrow> RemoteAddr r))"
    by (simp add: IPKeyExtractor_def Let_def first_in_list_takeWhile split: option.splits)
  have 2: "CHR '':'' \<notin> set (RemoteAddr r) \<longrightarrow> SplitHostPort (RemoteAddr r) = None"
    by (simp add: SplitHostPort_no_colon)
  have 3: "\<forall>host port. SplitHostPort (RemoteAddr r) = Some (host, port) \<longrightarrow>
      RemoteAddr r = host @ '':'' @ port \<or> RemoteAddr r = ''['' @ host @ '']:'' @ port"
    using SplitHostPort_Some [of "RemoteAddr r"] by blast
  from 1 2 3 show ?thesis by (intro conjI)
qed

text \<open>
  The cases of \<^verbatim>\<open>TestIPKeyExtractor\<close>, and a peer address without a port.
\<close>

theorem IPKeyExtractor_result_witness:
  "IPKeyExtractor (test_request ''192.168.1.1:1234'' ''203.0.113.1, 198.51.100.1'' []) = ''203.0.113.1'' \<and>
   IPKeyExtractor (test_request ''192.168.1.1:1234'' [] ''203.0.113.1'') = ''203.0.113.1'' \<and>
   SplitHostPort ''192.168.1.1:1234'' = Some (''192.168.1.1'', ''1234'') \<and>
   IPKeyExtractor (test_request ''192.168.1.1:1234'' [] []) = ''192.168.1.1'' \<and>
   CHR '':'' \<notin> set ''192.168.1.1'' \<and>
   SplitHostPort ''192.168.1.1'' = None \<and>
   IPKeyExtractor (test_request ''192.168.1.1'' [] []) = ''192.168.1.1''"
proof -
  let ?r1 = "test_request ''192.168.1.1:1234'' ''203.0.113.1, 198.51.100.1'' []"
  let ?r2 = "test_request ''192.168.1.1:1234'' [] ''203.0.113.1''"
  let ?r3 = "test_request ''192.168.1.1:1234'' [] []"
  let ?r4 = "test_request ''192.168.1.1'' [] []"
  have x1: "Header_Get (Header ?r1) ''X-Forwarded-For'' = ''203.0.113.1, 198.51.100.1''"
    by (simp add: test_request_def string_eval)
  have x2: "Header_Get (Header ?r2) ''X-Forwarded-For'' = []"
    and y2: "Header_Get (Header ?r2) ''X-Real-IP'' = ''203.0.113.1''"
    by (simp_all add: test_request_def string_eval)
  have x3: "Header_Get (Header ?r3) ''X-Forwarded-For'' = []"
    and y3: "Header_Get (Header ?r3) ''X-Real-IP'' = []"
    and a3: "RemoteAddr ?r3 = ''192.168.1.1:1234''"
    by (simp_all add: test_request_def string_eval)
  have x4: "Header_Get (Header ?r4) ''X-Forwarded-For'' = []"
    and y4: "Header_Get (Header ?r4) ''X-Real-IP'' = []"
    and a4: "RemoteAddr ?r4 = ''192.168.1.1''"
    by (simp_all add: test_request_def string_eval)
  have s: "SplitHostPort ''192.168.1.1:1234'' = Some (''192.168.1.1'', ''1234'')"
    by (simp add: SplitHostPort_def string_eval)
  have nc: "CHR '':'' \<notin> set ''192.168.1.1''" by simp
  have 1: "IPKeyExtractor ?r1 = ''203.0.113.1''"
    using IPKeyExtractor_result [of ?r1, THEN conjunct1] by (simp add: x1)
  have 2: "IPKeyExtractor ?r2 = ''203.0.113.1''"
    using IPKeyExtractor_result [of ?r2, THEN conjunct1] by (simp add: x2 y2)
  have 3: "IPKeyExtractor ?r3 = ''192.168.1.1''"
    using IPKeyExtractor_result [of ?r3, THEN conjunct1] by (simp add: x3 y3 a3 s)
  have n: "SplitHostPort ''192.168.1.1'' = None"
    using IPKeyExtractor_result [of ?r4, THEN conjunct2, THEN conjunct1] nc by (simp add: a4)
  have 4: "IPKeyExtractor ?r4 = ''192.168.1.1''"
    using IPKeyExtractor_result [of ?r4, THEN conjunct1] by (simp add: x4 y4 a4 n)
  from 1 2 s 3 nc n 4 show ?thesis by (intro conjI)
qed

text \<open>
  The claim as stated trims the first address. With a space before the comma the code
  returns the address with that space.
\<close>

theorem IPKeyExtractor_untrimmed_counterexample:
  "IPKeyExtractor (test_request ''192.168.1.1:1234'' ''203.0.113.1 , 198.51.100.1'' [])
     = ''203.0.113.1 '' \<and>
   TrimSpace ''203.0.113.1 '' = ''203.0.113.1''"
proof -
  have x: "Header_Get (Header (test_request ''192.168.1.1:1234'' ''203.0.113.1 , 198.51.100.1'' []))
             ''X-Forwarded-For'' = ''203.0.113.1 , 198.51.100.1''"
    by (simp add: test_request_def string_eval)
  have "IPKeyExtractor (test_request ''192.168.1.1:1234'' ''203.0.113.1 , 198.51.100.1'' [])
     = ''203.0.113.1 ''"
    by (simp add: IPKeyExtractor_def x first_in_list.simps)
  moreover have "TrimSpace ''203.0.113.1 '' = ''203.0.113.1''"
    by (simp add: TrimSpace_def isSpace_def)
  ultimately show ?thesis by simp
qed

section \<open>Properties of the rate limiter\<close>

subsection \<open>Rounding and the invariant of the buckets\<close>

lemma rounding_mono: "float64_rounding rnd \<Longrightarrow> x \<le> y \<Longrightarrow> rnd x \<le> rnd y"
  unfolding float64_rounding_def by blast

lemma rounding_int: "float64_rounding rnd \<Longrightarrow> \<bar>n\<bar> \<le> 2 ^ 53 \<Longrightarrow> rnd (of_int n) = of_int n"
  unfolding float64_rounding_def by blast

lemma rounding_up:
  "float64_rounding rnd \<Longrightarrow> 1 / 2 ^ 1022 \<le> x \<Longrightarrow> x \<le> 2 ^ 1023 \<Longrightarrow> rnd x \<le> x * (1 + 1 / 2 ^ 53)"
  unfolding float64_rounding_def by blast

lemma rounding_0: "float64_rounding rnd \<Longrightarrow> rnd 0 = 0"
  using rounding_int [of rnd 0] by simp

lemma rounding_1: "float64_rounding rnd \<Longrightarrow> rnd 1 = 1"
  using rounding_int [of rnd 1] by simp

lemma rounding_nonneg: "float64_rounding rnd \<Longrightarrow> 0 \<le> x \<Longrightarrow> 0 \<le> rnd x"
  using rounding_mono [of rnd 0 x] by (simp add: rounding_0)

lemma float64_rounding_exact: "float64_rounding exact"
  unfolding float64_rounding_def exact_def
proof (intro conjI allI impI)
  fix x :: real
  assume "1 / 2 ^ 1022 \<le> x \<and> x \<le> 2 ^ 1023"
  moreover have "(0 :: real) \<le> 1 / 2 ^ 1022"
    by (intro divide_nonneg_pos zero_less_power) simp_all
  ultimately have "0 \<le> x" by linarith
  then have "0 \<le> x * (1 / 2 ^ 53)" by (intro mult_nonneg_nonneg) simp_all
  then show "x \<le> x * (1 + 1 / 2 ^ 53)" by (simp add: algebra_simps)
qed simp_all

lemma quot_nonneg: "0 \<le> a \<Longrightarrow> quot a 1000000000 = a div 1000000000"
  by (simp add: quot_def)

lemma rem_nonneg: "0 \<le> a \<Longrightarrow> rem a 1000000000 = a mod 1000000000"
  by (simp add: rem_def quot_nonneg minus_mult_div_eq_mod)

lemma Seconds_nonneg:
  assumes "float64_rounding rnd" and "0 \<le> d"
  shows "0 \<le> Seconds rnd d"
proof -
  note nn = rounding_nonneg [OF assms(1)]
  have 1: "0 \<le> rnd (of_int (d div 1000000000))"
    using assms(2) by (intro nn) (simp add: pos_imp_zdiv_nonneg_iff)
  have "0 \<le> rnd (of_int (d mod 1000000000))"
    by (intro nn) simp
  then have 2: "0 \<le> rnd (rnd (of_int (d mod 1000000000)) / 1000000000)"
    by (intro nn divide_nonneg_nonneg) simp_all
  have "0 \<le> rnd (rnd (of_int (d div 1000000000)) + rnd (rnd (of_int (d mod 1000000000)) / 1000000000))"
    by (rule nn) (rule add_nonneg_nonneg [OF 1 2])
  then show ?thesis
    using assms(2) by (simp add: Seconds_def quot_nonneg rem_nonneg)
qed

lemma Sub_nonneg: "u \<le> t \<Longrightarrow> 0 \<le> Sub t u"
  by (simp add: Sub_def)

lemma Seconds_0: "float64_rounding rnd \<Longrightarrow> Seconds rnd 0 = 0"
  by (simp add: Seconds_def quot_def rem_def rounding_0)

text \<open>The bucket that Allow writes.\<close>

lemma Allow_bucket:
  assumes r: "float64_rounding rnd" and b1: "0 < burst tb" and b2: "burst tb \<le> 2 ^ 53"
    and r0: "0 \<le> rate tb"
    and old: "\<And>b. buckets tb k = Some b \<Longrightarrow>
                0 \<le> tokens b \<and> tokens b \<le> of_int (burst tb) \<and> lastRefill b \<le> now"
    and cr: "created \<le> now"
    and new: "buckets (fst (tokenBucket_Allow rnd tb k created now)) k = Some b'"
  shows "0 \<le> tokens b' \<and> tokens b' \<le> of_int (burst tb) \<and> lastRefill b' = now"
proof -
  define b0 where "b0 = (case buckets tb k of
                 Some b \<Rightarrow> b
               | None \<Rightarrow> \<lparr>tokens = rnd (of_int (burst tb)), lastRefill = created\<rparr>)"
  define toks where
    "toks = min_f (rnd (of_int (burst tb)))
              (rnd (tokens b0 + rnd (Seconds rnd (Sub now (lastRefill b0)) * rate tb)))"
  have B: "rnd (of_int (burst tb)) = of_int (burst tb)"
    using r b1 b2 by (intro rounding_int) simp_all
  have b0: "0 \<le> tokens b0 \<and> tokens b0 \<le> of_int (burst tb) \<and> lastRefill b0 \<le> now"
  proof (cases "buckets tb k")
    case None
    with B b1 cr show ?thesis by (simp add: b0_def)
  next
    case (Some b)
    with old [OF Some] show ?thesis by (simp add: b0_def)
  qed
  note nn = rounding_nonneg [OF r]
  have el: "0 \<le> Seconds rnd (Sub now (lastRefill b0))"
    using b0 by (intro Seconds_nonneg [OF r] Sub_nonneg) simp
  have "0 \<le> rnd (Seconds rnd (Sub now (lastRefill b0)) * rate tb)"
    by (rule nn) (rule mult_nonneg_nonneg [OF el r0])
  with b0 have "0 \<le> tokens b0 + rnd (Seconds rnd (Sub now (lastRefill b0)) * rate tb)"
    by simp
  then have "0 \<le> rnd (tokens b0 + rnd (Seconds rnd (Sub now (lastRefill b0)) * rate tb))"
    by (rule nn)
  then have t0: "0 \<le> toks" and t1: "toks \<le> of_int (burst tb)"
    using b1 by (simp_all add: toks_def min_f_def B)
  have dec: "0 \<le> rnd (toks - 1) \<and> rnd (toks - 1) \<le> of_int (burst tb)" if "1 \<le> toks"
  proof
    show "0 \<le> rnd (toks - 1)" using that by (intro nn) simp
    have "rnd (toks - 1) \<le> rnd (of_int (burst tb))"
      using t1 by (intro rounding_mono [OF r]) simp
    then show "rnd (toks - 1) \<le> of_int (burst tb)" by (simp add: B)
  qed
  have "tokens b' = (if 1 \<le> toks then rnd (toks - 1) else toks) \<and> lastRefill b' = now"
    using new by (auto simp: tokenBucket_Allow_def Let_def b0_def [symmetric] toks_def [symmetric]
        split: if_splits)
  with t0 t1 dec show ?thesis by (simp split: if_splits)
qed

lemma Allow_other:
  "k' \<noteq> k \<Longrightarrow> buckets (fst (tokenBucket_Allow rnd tb k created now)) k' = buckets tb k'"
  by (simp add: tokenBucket_Allow_def Let_def)

lemma Allow_params:
  "rate (fst (tokenBucket_Allow rnd tb k created now)) = rate tb \<and>
   burst (fst (tokenBucket_Allow rnd tb k created now)) = burst tb"
  by (simp add: tokenBucket_Allow_def Let_def)

lemma Wait_state: "fst (tokenBucket_Wait rnd tb k) = tb"
  by (simp add: tokenBucket_Wait_def Let_def split: option.splits)

lemma limiter_step_params:
  "rate (fst (limiter_step rnd s op)) = rate (fst s) \<and> burst (fst (limiter_step rnd s op)) = burst (fst s)"
  by (cases s; cases op) (simp_all add: Allow_params Wait_state cleanup_sweep_def)

lemma limiter_inv_step:
  assumes r: "float64_rounding rnd" and b1: "0 < burst (fst s)" and b2: "burst (fst s) \<le> 2 ^ 53"
    and r0: "0 \<le> rate (fst s)" and inv: "limiter_inv s"
  shows "limiter_inv (limiter_step rnd s op)"
proof (cases s)
  case (Pair tb clock)
  show ?thesis
  proof (cases op)
    case (OpAllow k d1 d2)
    let ?created = "clock + int d1"
    let ?now = "clock + int d1 + int d2"
    let ?tb' = "fst (tokenBucket_Allow rnd tb k ?created ?now)"
    have "0 \<le> tokens b \<and> tokens b \<le> of_int (burst ?tb') \<and> lastRefill b \<le> ?now"
      if "buckets ?tb' k' = Some b" for k' b
    proof (cases "k' = k")
      case True
      have old: "\<And>b. buckets tb k = Some b \<Longrightarrow>
                0 \<le> tokens b \<and> tokens b \<le> of_int (burst tb) \<and> lastRefill b \<le> ?now"
        using inv Pair by (fastforce simp: limiter_inv_def)
      have "0 \<le> tokens b \<and> tokens b \<le> of_int (burst tb) \<and> lastRefill b = ?now"
        using r _ _ _ old
      proof (rule Allow_bucket)
        show "0 < burst tb" "burst tb \<le> 2 ^ 53" "0 \<le> rate tb"
          using b1 b2 r0 Pair by simp_all
        show "?created \<le> ?now" by simp
        show "buckets ?tb' k = Some b" using that True by simp
      qed
      then show ?thesis by (simp add: Allow_params)
    next
      case False
      with that have "buckets tb k' = Some b" by (simp add: Allow_other)
      with inv Pair show ?thesis by (fastforce simp: limiter_inv_def Allow_params)
    qed
    with Pair OpAllow show ?thesis by (simp add: limiter_inv_def)
  next
    case (OpWait k)
    with inv Pair show ?thesis by (simp add: Wait_state)
  next
    case (OpCleanup d)
    with inv Pair show ?thesis
      by (fastforce simp: limiter_inv_def cleanup_sweep_def split: option.splits if_splits)
  qed
qed

lemma limiter_inv_run:
  assumes r: "float64_rounding rnd"
  shows "0 < burst (fst s) \<Longrightarrow> burst (fst s) \<le> 2 ^ 53 \<Longrightarrow> 0 \<le> rate (fst s) \<Longrightarrow>
         limiter_inv s \<Longrightarrow> limiter_inv (limiter_run rnd s ops)"
  unfolding limiter_run_def
proof (induction ops arbitrary: s)
  case Nil
  then show ?case by simp
next
  case (Cons op ops)
  have "limiter_inv (limiter_step rnd s op)"
    using r Cons.prems by (intro limiter_inv_step)
  with Cons show ?case by (simp add: limiter_step_params)
qed

lemma limiter_run_params:
  "rate (fst (limiter_run rnd s ops)) = rate (fst s) \<and> burst (fst (limiter_run rnd s ops)) = burst (fst s)"
  unfolding limiter_run_def
  by (induction ops arbitrary: s) (simp_all add: limiter_step_params)

lemmas limiter_eval =
  limiter_run_def tokenBucket_Allow_def tokenBucket_Wait_def cleanup_sweep_def
  NewTokenBucket_def Seconds_def Sub_def quot_def rem_def min_f_def exact_def
  Duration_of_float_def Millisecond_def Let_def

subsection \<open>C5: the range of the tokens\<close>

text \<open>
  C5. With a positive rate and a positive burst (a burst that a \<^verbatim>\<open>float64\<close> holds exactly,
  up to \<open>2 ^ 53\<close>), after every sequence of \<^verbatim>\<open>Allow\<close> and \<^verbatim>\<open>Wait\<close> calls and sweeps on a new
  limiter, under a monotonic clock, every bucket holds at least 0 and at most \<^verbatim>\<open>burst\<close>
  tokens.
\<close>

theorem bucket_tokens_in_range:
  assumes "float64_rounding rnd" and "0 < requestsPerSecond"
    and "0 < burst'" and "burst' \<le> 2 ^ 53"
  shows "\<forall>k b. buckets (fst (limiter_run rnd (NewTokenBucket rnd requestsPerSecond burst', t0) ops)) k = Some b \<longrightarrow>
           0 \<le> tokens b \<and> tokens b \<le> of_int burst'"
proof -
  let ?s = "(NewTokenBucket rnd requestsPerSecond burst', t0)"
  have "0 \<le> rate (fst ?s)"
    using assms(2) by (simp add: NewTokenBucket_def rounding_nonneg [OF assms(1)])
  moreover have "limiter_inv ?s" by (simp add: limiter_inv_def NewTokenBucket_def)
  moreover have "burst (fst ?s) = burst'" by (simp add: NewTokenBucket_def)
  ultimately have "limiter_inv (limiter_run rnd ?s ops)"
    using assms by (intro limiter_inv_run) simp_all
  then show ?thesis
    using limiter_run_params [of rnd ?s ops]
    by (simp add: limiter_inv_def NewTokenBucket_def)
qed

text \<open>
  The theorem in exact arithmetic at rate 10 and burst 20: two calls 150 ms apart leave
  19 tokens.
\<close>

theorem bucket_tokens_in_range_witness:
  "float64_rounding exact \<and> (0 :: int) < 10 \<and> (0 :: int) < 20 \<and> (20 :: int) \<le> 2 ^ 53 \<and>
   buckets (fst (limiter_run exact (NewTokenBucket exact 10 20, 0) limiter_test_ops)) ''k''
     = Some \<lparr>tokens = 19, lastRefill = 150000000\<rparr> \<and>
   (0 :: real) \<le> tokens \<lparr>tokens = 19, lastRefill = 150000000\<rparr> \<and>
   tokens \<lparr>tokens = 19, lastRefill = 150000000\<rparr> \<le> of_int 20"
proof -
  have b: "buckets (fst (limiter_run exact (NewTokenBucket exact 10 20, 0) limiter_test_ops)) ''k''
     = Some \<lparr>tokens = 19, lastRefill = 150000000\<rparr>"
    by (simp add: limiter_test_ops_def limiter_eval)
  have h: "(0 :: int) < 10" "(0 :: int) < 20" "(20 :: int) \<le> 2 ^ 53" by simp_all
  from bucket_tokens_in_range [OF float64_rounding_exact h, of 0 limiter_test_ops] b
  have "(0 :: real) \<le> tokens \<lparr>tokens = 19, lastRefill = 150000000\<rparr> \<and>
    tokens \<lparr>tokens = 19, lastRefill = 150000000\<rparr> \<le> of_int 20"
    by blast
  with float64_rounding_exact h b show ?thesis by (intro conjI) simp_all
qed

end
